theory Spec2Isabelle
  imports Complex_Main
begin

section \<open>JavaScript numbers\<close>

text \<open>
  The amounts and the completion rate are JavaScript numbers: IEEE 754 binary64 values.
  A finite number is the rational number it denotes, and an arithmetic operation gives
  the double nearest to the exact result, a tie going to the even significand. A double
  has 53 significant bits; the range of its exponent is left out, the results of the
  routes being taken below \<open>2^1024\<close> (a sum of doubles and a quotient of two counts are
  never rounded in the subnormal range).
\<close>

type_synonym number = rat

text \<open>The number of binary digits of a positive integer.\<close>

function bit_length :: "int \<Rightarrow> nat" where
  "bit_length n = (if n \<le> 0 then 0 else Suc (bit_length (n div 2)))"
  by pat_completeness auto
termination
  by (relation "measure nat") auto

text \<open>The integer \<open>k\<close> with \<open>2^k \<le> x < 2^(k + 1)\<close>, for a positive \<open>x\<close>.\<close>

definition floor_log2 :: "rat \<Rightarrow> int" where
  "floor_log2 x =
     (let (a, b) = quotient_of x;
          k = int (bit_length a) - int (bit_length b)
      in if 2 powi k \<le> x then k else k - 1)"

text \<open>The integer nearest to \<open>y\<close>, a tie going to the even one.\<close>

definition round_half_even :: "rat \<Rightarrow> int" where
  "round_half_even y =
     (let q = \<lfloor>y\<rfloor>; r = y - of_int q
      in if r < 1 / 2 then q
         else if 1 / 2 < r then q + 1
         else if even q then q else q + 1)"

text \<open>
  The double nearest to \<open>x\<close>: with \<open>2^k \<le> |x| < 2^(k + 1)\<close>, the multiple of
  \<open>2^(k - 52)\<close> nearest to \<open>x\<close>.
\<close>

definition round_to_double :: "rat \<Rightarrow> number" where
  "round_to_double x =
     (if x = 0 then 0
      else let ulp = 2 powi (floor_log2 \<bar>x\<bar> - 52)
           in of_int (round_half_even (x / ulp)) * ulp)"

text \<open>\<open>x + y\<close>, \<open>x - y\<close>, \<open>x * y\<close> and, for \<open>y\<close> other than 0, \<open>x / y\<close>.\<close>

definition number_plus :: "number \<Rightarrow> number \<Rightarrow> number" where
  "number_plus x y = round_to_double (x + y)"

definition number_minus :: "number \<Rightarrow> number \<Rightarrow> number" where
  "number_minus x y = round_to_double (x - y)"

definition number_times :: "number \<Rightarrow> number \<Rightarrow> number" where
  "number_times x y = round_to_double (x * y)"

definition number_divide :: "number \<Rightarrow> number \<Rightarrow> number" where
  "number_divide x y = round_to_double (x / y)"

text \<open>\<open>Math.round(x)\<close> is \<open>floor(x + 1/2)\<close>, computed exactly.\<close>

definition Math_round :: "number \<Rightarrow> int" where
  "Math_round x = \<lfloor>x + 1 / 2\<rfloor>"

section \<open>Data model\<close>

text \<open>
  A row of the \<open>studyCards\<close> table, restricted to the columns the finance routes read.
  The table is declared in \<open>~/server/db/schema\<close>, outside the routes; an estimated
  cost is a finite JavaScript number, \<open>None\<close> is SQL \<open>NULL\<close>, and \<open>createdAt\<close> is a time
  value in milliseconds.
\<close>

record StudyCard =
  category :: "string option"
  estimatedCost :: "number option"
  isCompleted :: bool
  createdAt :: int

text \<open>One element of \<open>expenseCategories\<close> / \<open>revenueCategories\<close>.\<close>

record CategoryEntry =
  name :: string
  amount :: number
  count :: nat

text \<open>
  The JavaScript \<open>Map<string, {amount, count}>\<close>: an association list in insertion
  order. \<open>map_set\<close> is \<open>Map.prototype.set\<close>: an existing key keeps its position,
  a new key goes to the end. \<open>Map.prototype.get\<close> is \<open>map_of\<close>.
\<close>

type_synonym CategoryMap = "(string \<times> (number \<times> nat)) list"

fun map_set :: "('k \<times> 'v) list \<Rightarrow> 'k \<Rightarrow> 'v \<Rightarrow> ('k \<times> 'v) list" where
  "map_set [] k v = [(k, v)]"
| "map_set ((k', v') # m) k v = (if k' = k then (k, v) # m else (k', v') # map_set m k v)"

section \<open>Aggregator (route.ts, lines 73--129)\<close>

text \<open>\<open>card.estimatedCost ?? 0\<close>\<close>

definition cost_or_zero :: "StudyCard \<Rightarrow> number" where
  "cost_or_zero crd = (case estimatedCost crd of None \<Rightarrow> 0 | Some c \<Rightarrow> c)"

text \<open>\<open>cards.reduce((sum, card) => sum + (card.estimatedCost ?? 0), 0)\<close>\<close>

definition sum_costs :: "StudyCard list \<Rightarrow> number" where
  "sum_costs cards = foldl (\<lambda>sum crd. number_plus sum (cost_or_zero crd)) 0 cards"

text \<open>\<open>card.category ?? "Uncategorized"\<close>: only \<open>null\<close> is replaced.\<close>

definition category_or_default :: "StudyCard \<Rightarrow> string" where
  "category_or_default crd =
     (case category crd of None \<Rightarrow> ''Uncategorized'' | Some c \<Rightarrow> c)"

text \<open>The body of \<open>for (const card of cards) { ... }\<close> over a category map.\<close>

definition add_card :: "CategoryMap \<Rightarrow> StudyCard \<Rightarrow> CategoryMap" where
  "add_card m crd =
     (let cat = category_or_default crd;
          existing = (case map_of m cat of None \<Rightarrow> (0, 0) | Some e \<Rightarrow> e)
      in map_set m cat (number_plus (fst existing) (cost_or_zero crd), snd existing + 1))"

definition build_category_map :: "StudyCard list \<Rightarrow> CategoryMap" where
  "build_category_map cards = foldl add_card [] cards"

text \<open>\<open>Array.from(map.entries()).map(([name, data]) => ({name, amount, count}))\<close>\<close>

definition category_entries :: "CategoryMap \<Rightarrow> CategoryEntry list" where
  "category_entries m =
     map (\<lambda>(n, d). \<lparr>name = n, amount = fst d, count = snd d\<rparr>) m"

record FinanceSummary =
  totalRevenue :: number
  totalExpenses :: number
  netProfit :: number
  cashInflow :: number
  cashOutflow :: number
  netCashFlow :: number
  revenueCategories :: "CategoryEntry list"
  expenseCategories :: "CategoryEntry list"
  periodItemCount :: nat
  periodCompletedCount :: nat

definition aggregate :: "StudyCard list \<Rightarrow> FinanceSummary" where
  "aggregate periodCards =
     (let totalExpenses = sum_costs periodCards;
          completedCards = filter isCompleted periodCards;
          completedValue = sum_costs completedCards;
          totalRevenue = completedValue;
          netProfit = number_minus totalRevenue totalExpenses;
          cashInflow = completedValue;
          cashOutflow = totalExpenses;
          netCashFlow = number_minus cashInflow cashOutflow
      in \<lparr>totalRevenue = totalRevenue,
          totalExpenses = totalExpenses,
          netProfit = netProfit,
          cashInflow = cashInflow,
          cashOutflow = cashOutflow,
          netCashFlow = netCashFlow,
          revenueCategories = category_entries (build_category_map completedCards),
          expenseCategories = category_entries (build_category_map periodCards),
          periodItemCount = length periodCards,
          periodCompletedCount = length completedCards\<rparr>)"

section \<open>Vocabulary of the statements\<close>

text \<open>The distinct elements of a list, each at the place of its first occurrence.\<close>

fun first_occurrences :: "'a list \<Rightarrow> 'a list" where
  "first_occurrences [] = []"
| "first_occurrences (x # xs) = x # removeAll x (first_occurrences xs)"

text \<open>The sum of a list of numbers as JavaScript adds them, from left to right.\<close>

definition number_sum :: "number list \<Rightarrow> number" where
  "number_sum xs = foldl number_plus 0 xs"

text \<open>The group of one category name: its entry as the specification describes it.\<close>

definition group_entry :: "StudyCard list \<Rightarrow> string \<Rightarrow> CategoryEntry" where
  "group_entry cards k =
     (let members = filter (\<lambda>crd. category_or_default crd = k) cards
      in \<lparr>name = k,
          amount = number_sum (map cost_or_zero members),
          count = length members\<rparr>)"

text \<open>
  Amounts in whole units whose magnitudes add up to at most \<open>2^53\<close>: every sum of such
  amounts is a double, so that no addition rounds.
\<close>

definition whole_amounts :: "StudyCard list \<Rightarrow> bool" where
  "whole_amounts cards \<longleftrightarrow>
     list_all (\<lambda>crd. of_int \<lfloor>cost_or_zero crd\<rfloor> = cost_or_zero crd) cards
     \<and> sum_list (map (\<lambda>crd. \<bar>cost_or_zero crd\<bar>) cards) \<le> 2 ^ 53"

section \<open>The platform's Date\<close>

text \<open>
  \<open>new Date(year, month, day, hours, minutes, seconds)\<close>, \<open>getFullYear\<close> and
  \<open>getMonth\<close> as ECMAScript defines them (Date objects: \<open>Day\<close>, \<open>DaysInYear\<close>,
  \<open>DayFromYear\<close>, \<open>YearFromTime\<close>, \<open>MonthFromTime\<close>, \<open>MakeTime\<close>, \<open>MakeDay\<close>,
  \<open>MakeDate\<close>, \<open>TimeClip\<close>). A time value is a number of milliseconds; \<open>None\<close> is
  \<open>NaN\<close>, the time value of an Invalid Date. The local time zone is taken to have a
  fixed offset, and every time value of the model is a local one, so that the
  conversions between local time and UTC drop out.
\<close>

type_synonym Date = "int option"

definition msPerDay :: int where
  "msPerDay = 86400000"

definition Day :: "int \<Rightarrow> int" where
  "Day t = t div msPerDay"

definition DaysInYear :: "int \<Rightarrow> int" where
  "DaysInYear y =
     (if y mod 4 \<noteq> 0 then 365
      else if y mod 100 \<noteq> 0 then 366
      else if y mod 400 \<noteq> 0 then 365
      else 366)"

definition DayFromYear :: "int \<Rightarrow> int" where
  "DayFromYear y =
     365 * (y - 1970) + (y - 1969) div 4 - (y - 1901) div 100 + (y - 1601) div 400"

text \<open>
  \<open>YearFromTime(t)\<close> is the largest \<open>y\<close> with \<open>DayFromYear y \<le> Day t\<close>. It is
  computed from the estimate given by the mean length of a year, 146097 / 400 days,
  which is off by at most one year (lemma \<open>year_from_day_bounds\<close>).
\<close>

definition year_from_day :: "int \<Rightarrow> int" where
  "year_from_day d =
     (let y = 1970 + (400 * d) div 146097
      in if DayFromYear (y + 1) \<le> d then y + 1
         else if DayFromYear y \<le> d then y
         else y - 1)"

definition YearFromTime :: "int \<Rightarrow> int" where
  "YearFromTime t = year_from_day (Day t)"

definition InLeapYear :: "int \<Rightarrow> int" where
  "InLeapYear t = (if DaysInYear (YearFromTime t) = 366 then 1 else 0)"

definition DayWithinYear :: "int \<Rightarrow> int" where
  "DayWithinYear t = Day t - DayFromYear (YearFromTime t)"

definition MonthFromTime :: "int \<Rightarrow> int" where
  "MonthFromTime t =
     (let d = DayWithinYear t; leap = InLeapYear t
      in if d < 31 then 0
         else if d < 59 + leap then 1
         else if d < 90 + leap then 2
         else if d < 120 + leap then 3
         else if d < 151 + leap then 4
         else if d < 181 + leap then 5
         else if d < 212 + leap then 6
         else if d < 243 + leap then 7
         else if d < 273 + leap then 8
         else if d < 304 + leap then 9
         else if d < 334 + leap then 10
         else 11)"

text \<open>
  The day within the year on which month \<open>mn\<close> (0 to 11) begins: the lower bounds of
  the table of \<open>MonthFromTime\<close>.
\<close>

definition month_start :: "int \<Rightarrow> int \<Rightarrow> int" where
  "month_start leap mn =
     (if mn = 0 then 0
      else if mn = 1 then 31
      else if mn = 2 then 59 + leap
      else if mn = 3 then 90 + leap
      else if mn = 4 then 120 + leap
      else if mn = 5 then 151 + leap
      else if mn = 6 then 181 + leap
      else if mn = 7 then 212 + leap
      else if mn = 8 then 243 + leap
      else if mn = 9 then 273 + leap
      else if mn = 10 then 304 + leap
      else 334 + leap)"

definition DateFromTime :: "int \<Rightarrow> int" where
  "DateFromTime t = DayWithinYear t - month_start (InLeapYear t) (MonthFromTime t) + 1"

definition MakeTime :: "int \<Rightarrow> int \<Rightarrow> int \<Rightarrow> int \<Rightarrow> int" where
  "MakeTime hour minute sec ms = hour * 3600000 + minute * 60000 + sec * 1000 + ms"

text \<open>
  \<open>MakeDay\<close>: the month is carried into the year, the day number of the first of that
  month is found, and the day of the month is added as a plain offset (so day 0 is the
  day before the first).
\<close>

definition MakeDay :: "int \<Rightarrow> int \<Rightarrow> int \<Rightarrow> int" where
  "MakeDay year month date =
     (let ym = year + month div 12;
          mn = month mod 12
      in DayFromYear ym + month_start (if DaysInYear ym = 366 then 1 else 0) mn + date - 1)"

definition MakeDate :: "int \<Rightarrow> int \<Rightarrow> int" where
  "MakeDate day time = day * msPerDay + time"

definition TimeClip :: "int \<Rightarrow> Date" where
  "TimeClip t = (if \<bar>t\<bar> > 8640000000000000 then None else Some t)"

text \<open>
  The constructor with numeric arguments. A \<open>NaN\<close> year or month gives an Invalid Date;
  a year from 0 to 99 stands for 1900 + year.
\<close>

definition newDate :: "int option \<Rightarrow> int option \<Rightarrow> int \<Rightarrow> int \<Rightarrow> int \<Rightarrow> int \<Rightarrow> Date" where
  "newDate year month date hours minutes seconds =
     (case (year, month) of
        (Some y, Some m) \<Rightarrow>
          (let yr = (if 0 \<le> y \<and> y \<le> 99 then 1900 + y else y)
           in TimeClip (MakeDate (MakeDay yr m date) (MakeTime hours minutes seconds 0)))
      | _ \<Rightarrow> None)"

definition getFullYear :: "Date \<Rightarrow> int option" where
  "getFullYear d = map_option YearFromTime d"

definition getMonth :: "Date \<Rightarrow> int option" where
  "getMonth d = map_option MonthFromTime d"

section \<open>Period Resolver (route.ts, lines 44--57)\<close>

text \<open>\<open>Math.ceil(a / b)\<close> for integers \<open>a\<close> and \<open>b > 0\<close>.\<close>

definition Math_ceil_div :: "int \<Rightarrow> int \<Rightarrow> int" where
  "Math_ceil_div a b = - ((- a) div b)"

definition period_resolver :: "string \<Rightarrow> int option \<Rightarrow> int option \<Rightarrow> Date \<times> Date" where
  "period_resolver periodType year month =
     (if periodType = ''yearly'' then
        (newDate year (Some 0) 1 0 0 0,
         newDate year (Some 11) 31 23 59 59)
      else if periodType = ''quarterly'' then
        (let quarter = map_option (\<lambda>m. Math_ceil_div m 3) month
         in (newDate year (map_option (\<lambda>q. (q - 1) * 3) quarter) 1 0 0 0,
             newDate year (map_option (\<lambda>q. q * 3) quarter) 0 23 59 59))
      else
        (newDate year (map_option (\<lambda>m. m - 1) month) 1 0 0 0,
         newDate year month 0 23 59 59))"

section \<open>Query parameters\<close>

text \<open>
  A string that \<open>parseInt\<close> reads is the sequence of its UTF-16 code units; \<open>ascii\<close>
  gives the code units of a literal. The strings that the routes only compare (the
  period type, the key, the header, the category) are kept as strings.
\<close>

type_synonym String16 = "int list"

definition ascii :: "string \<Rightarrow> String16" where
  "ascii s = map of_char s"

text \<open>
  \<open>parseInt(string)\<close> without a radix: leading white space is skipped (the white space
  and line terminator code points of ECMAScript: TAB, LF, VT, FF, CR, SP, NBSP, the
  other space separators U+1680, U+2000 to U+200A, U+202F, U+205F and U+3000, the
  separators U+2028 and U+2029, and U+FEFF), a sign is read, \<open>0x\<close> or \<open>0X\<close> selects
  radix 16, and the longest prefix of digits is the value; with no digit the result is
  \<open>NaN\<close> (\<open>None\<close>). The value is the exact integer: beyond \<open>2^53\<close> JavaScript rounds
  it, which no route can tell apart (such a year or month gives an Invalid Date, such
  a \<open>months\<close> is clamped to 24 or runs no iteration).
\<close>

definition StrWhiteSpaceChar :: "int \<Rightarrow> bool" where
  "StrWhiteSpaceChar c \<longleftrightarrow>
     c \<in> set [0x0009, 0x000A, 0x000B, 0x000C, 0x000D, 0x0020, 0x00A0, 0x1680,
              0x2028, 0x2029, 0x202F, 0x205F, 0x3000, 0xFEFF]
     \<or> (0x2000 \<le> c \<and> c \<le> 0x200A)"

definition digit_value :: "int \<Rightarrow> int option" where
  "digit_value c =
     (if 48 \<le> c \<and> c \<le> 57 then Some (c - 48)
      else if 97 \<le> c \<and> c \<le> 122 then Some (c - 87)
      else if 65 \<le> c \<and> c \<le> 90 then Some (c - 55)
      else None)"

definition is_radix_digit :: "int \<Rightarrow> int \<Rightarrow> bool" where
  "is_radix_digit R c = (case digit_value c of None \<Rightarrow> False | Some v \<Rightarrow> v < R)"

definition parseInt :: "String16 \<Rightarrow> int option" where
  "parseInt string =
     (let S = dropWhile StrWhiteSpaceChar string;
          sign = (if take 1 S = ascii ''-'' then - 1 else 1);
          S1 = (if take 1 S = ascii ''+'' \<or> take 1 S = ascii ''-'' then drop 1 S else S);
          hex = (take 2 S1 = ascii ''0x'' \<or> take 2 S1 = ascii ''0X'');
          R = (if hex then 16 else 10);
          S2 = (if hex then drop 2 S1 else S1);
          Z = takeWhile (is_radix_digit R) S2
      in if Z = [] then None
         else Some (sign * foldl (\<lambda>n c. n * R + (case digit_value c of None \<Rightarrow> 0 | Some v \<Rightarrow> v)) 0 Z))"

section \<open>Authentication (route.ts, lines 22--34 and 200--212)\<close>

text \<open>
  \<open>authHeader?.startsWith("Bearer ") ? authHeader.slice(7) : null\<close>, for the header
  value or \<open>null\<close>.
\<close>

definition providedKey :: "string option \<Rightarrow> string option" where
  "providedKey authHeader =
     (case authHeader of
        None \<Rightarrow> None
      | Some h \<Rightarrow> if take 7 h = ''Bearer '' then Some (drop 7 h) else None)"

text \<open>
  \<open>if (apiKey) { ... if (providedKey !== apiKey) return 401 }\<close>: an unset or empty
  \<open>PRESIDENT_API_KEY\<close> is falsy and skips the check.
\<close>

definition unauthorized :: "string option \<Rightarrow> string option \<Rightarrow> bool" where
  "unauthorized apiKey authHeader =
     (case apiKey of
        None \<Rightarrow> False
      | Some k \<Rightarrow> k \<noteq> [] \<and> providedKey authHeader \<noteq> Some k)"

datatype 'a Response = Json200 'a | JsonError nat string

fun status :: "'a Response \<Rightarrow> nat" where
  "status (Json200 body) = 200"
| "status (JsonError code message) = code"

section \<open>The completion rate (route.ts, lines 167--170)\<close>

text \<open>
  \<open>totalItems > 0 ? Math.round((totalCompleted / totalItems) * 100) : 0\<close>, for two
  counts (integers below \<open>2^53\<close>, which are doubles).
\<close>

definition completion_rate :: "int \<Rightarrow> int \<Rightarrow> int" where
  "completion_rate totalItems totalCompleted =
     (if totalItems > 0
      then Math_round (number_times (number_divide (of_int totalCompleted) (of_int totalItems)) 100)
      else 0)"

section \<open>Report endpoint (route.ts, lines 20--182)\<close>

text \<open>
  The query parameters as \<open>url.searchParams.get\<close> returns them (\<open>None\<close> is \<open>null\<close>), and
  the body of the 200 response. The response prints \<open>periodStart\<close> and \<open>periodEnd\<close> as
  dates; the model keeps the time values. \<open>periodItemCount\<close> and \<open>periodCompletedCount\<close>
  of the metadata are fields of the summary.
\<close>

record ReportQuery =
  q_periodType :: "string option"
  q_year :: "String16 option"
  q_month :: "String16 option"

record Report =
  reportPeriodType :: string
  reportPeriodStart :: int
  reportPeriodEnd :: int
  summary :: FinanceSummary
  totalItems :: int
  totalCompleted :: int
  completionRate :: int

text \<open>
  The rows selected by \<open>gte(createdAt, periodStart)\<close> and \<open>lte(createdAt, periodEnd)\<close>,
  in the order of the table.
\<close>

definition period_cards :: "int \<Rightarrow> int \<Rightarrow> StudyCard list \<Rightarrow> StudyCard list" where
  "period_cards periodStart periodEnd table_rows =
     filter (\<lambda>crd. periodStart \<le> createdAt crd \<and> createdAt crd \<le> periodEnd) table_rows"

text \<open>
  The handler reads the table three times, in three queries that are awaited one after
  the other outside any transaction: the rows of the period, the count of all rows and
  the count of the completed rows. Each field is the table as that query finds it, or
  \<open>None\<close> when the query fails.
\<close>

record Snapshots =
  periodCards_query :: "StudyCard list option"
  allCards_query :: "StudyCard list option"
  allCompleted_query :: "StudyCard list option"

text \<open>
  \<open>apiKey\<close> is \<open>env.PRESIDENT_API_KEY\<close>, \<open>authHeader\<close> the Authorization header and \<open>now\<close>
  the time value of \<open>new Date()\<close>. A default year or month is the number itself
  (\<open>parseInt(String(n))\<close> is \<open>n\<close>). Every exception inside \<open>try\<close> ends in the 500
  response: a failing query, and the \<open>RangeError\<close> that an Invalid Date raises when it
  is turned into a string.
\<close>

definition requested_period :: "ReportQuery \<Rightarrow> int \<Rightarrow> string \<times> Date \<times> Date" where
  "requested_period query now =
     (let periodType = (case q_periodType query of None \<Rightarrow> ''monthly'' | Some p \<Rightarrow> p);
          year = (case q_year query of None \<Rightarrow> Some (YearFromTime now) | Some s \<Rightarrow> parseInt s);
          month = (case q_month query of None \<Rightarrow> Some (MonthFromTime now + 1)
                   | Some s \<Rightarrow> parseInt s)
      in (periodType, period_resolver periodType year month))"

text \<open>The handler after the authentication: the queries and the response.\<close>

definition report_body :: "ReportQuery \<Rightarrow> int \<Rightarrow> Snapshots \<Rightarrow> Report Response" where
  "report_body query now db =
     (case (requested_period query now,
            periodCards_query db, allCards_query db, allCompleted_query db) of
        ((periodType, Some periodStart, Some periodEnd),
         Some period_table, Some allCards_table, Some allCompleted_table) \<Rightarrow>
          (let periodCards = period_cards periodStart periodEnd period_table;
               totalItems = int (length allCards_table);
               totalCompleted = int (length (filter isCompleted allCompleted_table))
           in Json200
                \<lparr>reportPeriodType = periodType,
                 reportPeriodStart = periodStart,
                 reportPeriodEnd = periodEnd,
                 summary = aggregate periodCards,
                 totalItems = totalItems,
                 totalCompleted = totalCompleted,
                 completionRate = completion_rate totalItems totalCompleted\<rparr>)
      | _ \<Rightarrow> JsonError 500 ''Internal server error'')"

definition report_GET ::
  "string option \<Rightarrow> string option \<Rightarrow> ReportQuery \<Rightarrow> int \<Rightarrow> Snapshots
     \<Rightarrow> Report Response" where
  "report_GET apiKey authHeader query now db =
     (if unauthorized apiKey authHeader
      then JsonError 401 ''Unauthorized. Invalid or missing API key.''
      else report_body query now db)"

section \<open>History endpoint (route.ts, lines 198--294)\<close>

text \<open>
  One element of \<open>summaries\<close>: the period and the totals of the month. The totals are
  those of the aggregator (the entry leaves out \<open>revenueCategories\<close>).
\<close>

record HistoryEntry =
  entryPeriodStart :: int
  entryPeriodEnd :: int
  entryTotals :: FinanceSummary

text \<open>
  The body of the loop for one \<open>i\<close>, with the table as its query finds it (\<open>None\<close> when
  the query fails); \<open>None\<close> when the body throws.
\<close>

definition month_summary :: "int \<Rightarrow> StudyCard list option \<Rightarrow> int \<Rightarrow> HistoryEntry option" where
  "month_summary now db i =
     (let targetDate = newDate (Some (YearFromTime now)) (Some (MonthFromTime now - i)) 1 0 0 0;
          periodStart = newDate (getFullYear targetDate) (getMonth targetDate) 1 0 0 0;
          periodEnd = newDate (getFullYear targetDate)
                        (map_option (\<lambda>m. m + 1) (getMonth targetDate)) 0 23 59 59
      in case (periodStart, periodEnd, db) of
           (Some s, Some e, Some table_rows) \<Rightarrow>
             Some \<lparr>entryPeriodStart = s,
                   entryPeriodEnd = e,
                   entryTotals = aggregate (period_cards s e table_rows)\<rparr>
         | _ \<Rightarrow> None)"

text \<open>
  \<open>for (let i = 0; i < monthsCount; i++) { ... summaries.push(...) }\<close>, from the current
  \<open>i\<close> and \<open>summaries\<close>; a comparison with \<open>NaN\<close> is false. Every iteration awaits a
  query of its own: \<open>db i\<close> is the table as the query of iteration \<open>i\<close> finds it, or
  \<open>None\<close> when that query fails.
\<close>

type_synonym Database = "int \<Rightarrow> StudyCard list option"

function history_loop ::
  "int \<Rightarrow> Database \<Rightarrow> int option \<Rightarrow> int \<Rightarrow> HistoryEntry list
     \<Rightarrow> HistoryEntry list option" where
  "history_loop now db monthsCount i summaries =
     (if (case monthsCount of None \<Rightarrow> False | Some n \<Rightarrow> i < n)
      then (case month_summary now (db i) i of
              None \<Rightarrow> None
            | Some entry \<Rightarrow> history_loop now db monthsCount (i + 1) (summaries @ [entry]))
      else Some summaries)"
  by pat_completeness auto
termination
  by (relation "measure (\<lambda>(now, db, monthsCount, i, summaries).
        case monthsCount of None \<Rightarrow> 0 | Some n \<Rightarrow> nat (n - i))")
     (auto split: option.splits)

text \<open>The History Builder: the loop from \<open>i = 0\<close> and no summaries.\<close>

definition history_builder :: "int \<Rightarrow> Database \<Rightarrow> int option \<Rightarrow> HistoryEntry list option" where
  "history_builder now db monthsCount = history_loop now db monthsCount 0 []"

text \<open>\<open>Math.min(parseInt(url.searchParams.get("months") ?? "12"), 24)\<close>\<close>

definition months_count :: "String16 option \<Rightarrow> int option" where
  "months_count months =
     map_option (\<lambda>n. min n 24) (parseInt (case months of None \<Rightarrow> ascii ''12'' | Some s \<Rightarrow> s))"

definition history_body :: "String16 option \<Rightarrow> int \<Rightarrow> Database \<Rightarrow> HistoryEntry list Response" where
  "history_body months now db =
     (case history_builder now db (months_count months) of
        Some summaries \<Rightarrow> Json200 summaries
      | None \<Rightarrow> JsonError 500 ''Internal server error'')"

definition history_GET ::
  "string option \<Rightarrow> string option \<Rightarrow> String16 option \<Rightarrow> int \<Rightarrow> Database
     \<Rightarrow> HistoryEntry list Response" where
  "history_GET apiKey authHeader months now db =
     (if unauthorized apiKey authHeader
      then JsonError 401 ''Unauthorized. Invalid or missing API key.''
      else history_body months now db)"

section \<open>Calendar vocabulary of the statements\<close>

definition is_leap :: "int \<Rightarrow> bool" where
  "is_leap y \<longleftrightarrow> y mod 4 = 0 \<and> (y mod 100 \<noteq> 0 \<or> y mod 400 = 0)"

text \<open>The number of days of month \<open>m\<close> (1 to 12) of year \<open>y\<close>.\<close>

definition days_in_month :: "int \<Rightarrow> int \<Rightarrow> int" where
  "days_in_month y m =
     (if m = 2 then (if is_leap y then 29 else 28)
      else if m = 4 \<or> m = 6 \<or> m = 9 \<or> m = 11 then 30
      else 31)"

text \<open>
  The time value of the local instant \<open>y-m-d h:mi:s.ms\<close>, for a month from 1 to 12 and a
  day of that month.
\<close>

definition civil :: "int \<Rightarrow> int \<Rightarrow> int \<Rightarrow> int \<Rightarrow> int \<Rightarrow> int \<Rightarrow> int \<Rightarrow> int" where
  "civil y m d h mi s ms =
     (DayFromYear y + month_start (if is_leap y then 1 else 0) (m - 1) + (d - 1)) * msPerDay
       + h * 3600000 + mi * 60000 + s * 1000 + ms"

text \<open>The instant \<open>t\<close> lies in month \<open>m\<close> (1 to 12) of year \<open>y\<close>.\<close>

definition in_month :: "int \<Rightarrow> int \<Rightarrow> int \<Rightarrow> bool" where
  "in_month y m t \<longleftrightarrow> YearFromTime t = y \<and> MonthFromTime t = m - 1"

text \<open>
  The years that a Date holds as they are given: not the two-digit years 0 to 99,
  which the constructor reads as 1900 to 1999, and with every instant of the year
  inside the range of time values (20 April -271821 to 13 September 275760).
\<close>

definition plain_year :: "int \<Rightarrow> bool" where
  "plain_year y \<longleftrightarrow> \<not> (0 \<le> y \<and> y \<le> 99) \<and> - 271821 < y \<and> y < 275760"

text \<open>
  Calendar months counted in a row: month \<open>m\<close> (1 to 12) of year \<open>y\<close> has the index
  \<open>12 * y + (m - 1)\<close>, so the month \<open>i\<close> whole months earlier has the index less by \<open>i\<close>.
\<close>

definition month_index :: "int \<Rightarrow> int \<Rightarrow> int" where
  "month_index y m = 12 * y + (m - 1)"

text \<open>The history entry of month \<open>m\<close> (1 to 12) of year \<open>y\<close>.\<close>

definition month_entry :: "StudyCard list \<Rightarrow> int \<Rightarrow> int \<Rightarrow> HistoryEntry" where
  "month_entry table_rows y m =
     (let s = civil y m 1 0 0 0 0;
          e = civil y m (days_in_month y m) 23 59 59 0
      in \<lparr>entryPeriodStart = s, entryPeriodEnd = e,
          entryTotals = aggregate (period_cards s e table_rows)\<rparr>)"

section \<open>Vocabulary of the statements about the requests\<close>

text \<open>A table that no one changes while the report is made.\<close>

definition unchanged :: "StudyCard list \<Rightarrow> Snapshots" where
  "unchanged table_rows =
     \<lparr>periodCards_query = Some table_rows,
      allCards_query = Some table_rows,
      allCompleted_query = Some table_rows\<rparr>"

text \<open>The database of a history request whose query \<open>i\<close> finds the table \<open>tables i\<close>.\<close>

definition available :: "(int \<Rightarrow> StudyCard list) \<Rightarrow> Database" where
  "available tables = (\<lambda>i. Some (tables i))"

section \<open>Rounding to the nearest double\<close>

declare bit_length.simps [simp del]

lemma bit_length_nonpos: "n \<le> 0 \<Longrightarrow> bit_length n = 0"
  by (subst bit_length.simps) simp

lemma bit_length_pos: "0 < n \<Longrightarrow> bit_length n = Suc (bit_length (n div 2))"
  by (subst bit_length.simps) simp

lemma bit_length_bounds:
  "0 < n \<Longrightarrow> 2 ^ (bit_length n - 1) \<le> n \<and> n < 2 ^ bit_length n"
proof (induction n rule: bit_length.induct)
  case (1 n)
  show ?case
  proof (cases "n div 2 \<le> 0")
    case True
    with "1.prems" have "n = 1" by simp
    then show ?thesis by (simp add: bit_length_pos bit_length_nonpos)
  next
    case False
    then have h: "0 < n div 2" by simp
    from "1.IH" "1.prems" h
    have IH: "2 ^ (bit_length (n div 2) - 1) \<le> n div 2" "n div 2 < 2 ^ bit_length (n div 2)"
      by simp_all
    have pos: "0 < bit_length (n div 2)" using h by (simp add: bit_length_pos)
    then have "(2::int) ^ bit_length (n div 2) = 2 * 2 ^ (bit_length (n div 2) - 1)"
      by (cases "bit_length (n div 2)") simp_all
    with IH have "2 ^ bit_length (n div 2) \<le> n" "n < 2 * 2 ^ bit_length (n div 2)"
      by linarith+
    then show ?thesis using "1.prems" by (simp add: bit_length_pos)
  qed
qed

lemma two_powi_pos: "0 < (2::rat) powi k"
  by (simp add: power_int_def)

lemma two_powi_nat: "(2::rat) powi (int n) = 2 ^ n"
  by simp

lemma two_powi_add: "(2::rat) powi (j + k) = 2 powi j * 2 powi k"
  by (simp add: power_int_add)

lemma two_powi_mono: "j \<le> k \<Longrightarrow> (2::rat) powi j \<le> 2 powi k"
  by (simp add: power_int_increasing)

lemma two_powi_strict_mono: "j < k \<Longrightarrow> (2::rat) powi j < 2 powi k"
  by (simp add: power_int_strict_increasing)

lemma two_powi_less_cancel: "(2::rat) powi j < 2 powi k \<Longrightarrow> j < k"
  using two_powi_mono [of k j] by (cases "j < k") auto

lemma two_powi_Suc: "(2::rat) powi (k + 1) = 2 * 2 powi k"
  by (simp add: power_int_add)

lemma bit_length_rat:
  assumes "0 < n"
  shows "2 powi (int (bit_length n) - 1) \<le> (of_int n :: rat)"
    and "(of_int n :: rat) < 2 powi (int (bit_length n))"
proof -
  from bit_length_bounds [OF assms]
  have a: "2 ^ (bit_length n - 1) \<le> n" and b: "n < 2 ^ bit_length n" by simp_all
  have "0 < bit_length n" using assms by (simp add: bit_length_pos)
  then have "int (bit_length n) - 1 = int (bit_length n - 1)" by simp
  then have "(2::rat) powi (int (bit_length n) - 1) = 2 ^ (bit_length n - 1)"
    by (simp only: two_powi_nat)
  also have "\<dots> = of_int (2 ^ (bit_length n - 1))" by simp
  also have "\<dots> \<le> (of_int n :: rat)" using a by (simp only: of_int_le_iff)
  finally show "2 powi (int (bit_length n) - 1) \<le> (of_int n :: rat)" .
  have "(of_int n :: rat) < of_int (2 ^ bit_length n)" using b by (simp only: of_int_less_iff)
  then show "(of_int n :: rat) < 2 powi (int (bit_length n))" by simp
qed

lemma floor_log2_bounds:
  assumes "0 < x"
  shows "2 powi (floor_log2 x) \<le> x" and "x < 2 powi (floor_log2 x + 1)"
proof -
  obtain a b where q: "quotient_of x = (a, b)" by (cases "quotient_of x")
  from quotient_of_denom_pos [OF q] have b0: "0 < b" .
  from quotient_of_div [OF q] have x: "x = of_int a / of_int b" .
  from assms x b0 have a0: "0 < a" by (simp add: zero_less_divide_iff)
  define K where "K = int (bit_length a) - int (bit_length b)"
  have fl: "floor_log2 x = (if 2 powi K \<le> x then K else K - 1)"
    by (simp add: floor_log2_def q K_def)
  have a: "2 powi (int (bit_length a) - 1) \<le> (of_int a :: rat)"
    "(of_int a :: rat) < 2 powi (int (bit_length a))"
    by (rule bit_length_rat [OF a0])+
  have b: "2 powi (int (bit_length b) - 1) \<le> (of_int b :: rat)"
    "(of_int b :: rat) < 2 powi (int (bit_length b))"
    by (rule bit_length_rat [OF b0])+
  have xb: "x * of_int b = of_int a" using x b0 by simp
  have up: "x < 2 powi (K + 1)"
  proof -
    have "int (bit_length a) = (K + 1) + (int (bit_length b) - 1)" by (simp add: K_def)
    then have "2 powi (int (bit_length a)) = 2 powi (K + 1) * (2::rat) powi (int (bit_length b) - 1)"
      by (simp only: two_powi_add [symmetric])
    also have "\<dots> \<le> 2 powi (K + 1) * of_int b"
      using b(1) two_powi_pos [of "K + 1"] by (simp add: mult_left_mono)
    finally have "x * of_int b < 2 powi (K + 1) * of_int b" using a(2) xb by linarith
    with b0 show ?thesis by simp
  qed
  have low: "2 powi (K - 1) \<le> x"
  proof -
    have "2 powi (K - 1) * of_int b \<le> 2 powi (K - 1) * (2::rat) powi (int (bit_length b))"
      using b(2) two_powi_pos [of "K - 1"] by (simp add: mult_left_mono)
    also have "\<dots> = 2 powi ((K - 1) + int (bit_length b))"
      by (simp only: two_powi_add)
    also have "(K - 1) + int (bit_length b) = int (bit_length a) - 1" by (simp add: K_def)
    finally have "2 powi (K - 1) * of_int b \<le> x * of_int b" using a(1) xb by linarith
    with b0 show ?thesis by simp
  qed
  show "2 powi (floor_log2 x) \<le> x"
    using low by (simp add: fl)
  show "x < 2 powi (floor_log2 x + 1)"
    using up by (simp add: fl not_le)
qed

lemma floor_log2_unique:
  assumes "2 powi j \<le> x" "x < 2 powi (j + 1)"
  shows "floor_log2 x = j"
proof -
  from assms(1) two_powi_pos [of j] have x: "0 < x" by linarith
  note fl = floor_log2_bounds [OF x]
  from fl(1) assms(2) have "(2::rat) powi (floor_log2 x) < 2 powi (j + 1)" by linarith
  then have "floor_log2 x < j + 1" by (rule two_powi_less_cancel)
  moreover from fl(2) assms(1) have "(2::rat) powi j < 2 powi (floor_log2 x + 1)" by linarith
  then have "j < floor_log2 x + 1" by (rule two_powi_less_cancel)
  ultimately show ?thesis by simp
qed

lemma round_half_even_cases:
  "round_half_even y = \<lfloor>y\<rfloor> \<or> round_half_even y = \<lfloor>y\<rfloor> + 1"
  by (simp add: round_half_even_def Let_def)

lemma round_half_even_error: "\<bar>of_int (round_half_even y) - y\<bar> \<le> 1 / 2"
proof -
  have "of_int \<lfloor>y\<rfloor> \<le> y" "y < of_int \<lfloor>y\<rfloor> + 1" by linarith+
  then show ?thesis
    by (auto simp: round_half_even_def Let_def abs_le_iff split: if_splits)
qed

lemma round_half_even_of_int: "round_half_even (of_int n) = n"
  by (simp add: round_half_even_def)

lemma round_half_even_mono:
  assumes "y \<le> z"
  shows "round_half_even y \<le> round_half_even z"
proof (cases "\<lfloor>y\<rfloor> < \<lfloor>z\<rfloor>")
  case True
  with round_half_even_cases [of y] round_half_even_cases [of z] show ?thesis by linarith
next
  case False
  with assms have eq: "\<lfloor>y\<rfloor> = \<lfloor>z\<rfloor>" using floor_mono [OF assms] by simp
  from assms eq have "y - of_int \<lfloor>y\<rfloor> \<le> z - of_int \<lfloor>z\<rfloor>" by simp
  then show ?thesis
    unfolding round_half_even_def Let_def eq by (auto split: if_splits)
qed

lemma round_half_even_minus: "round_half_even (- y) = - round_half_even y"
proof (cases "y = of_int \<lfloor>y\<rfloor>")
  case True
  then obtain n where "y = of_int n" ..
  then have "- y = of_int (- n)" by simp
  then show ?thesis unfolding \<open>y = of_int n\<close> by (simp only: round_half_even_of_int)
next
  case False
  then have fl: "\<lfloor>- y\<rfloor> = - \<lfloor>y\<rfloor> - 1"
    by (simp add: floor_minus ceiling_altdef)
  show ?thesis
    unfolding round_half_even_def Let_def fl by (auto split: if_splits)
qed

lemma round_to_double_0: "round_to_double 0 = 0"
  by (simp add: round_to_double_def)

lemma two_powi_52: "(2::rat) powi k = 2 ^ 52 * 2 powi (k - 52)"
proof -
  have "k = 52 + (k - 52)" by simp
  then have "(2::rat) powi k = 2 powi (52 + (k - 52))" by (rule arg_cong)
  also have "\<dots> = 2 powi 52 * 2 powi (k - 52)" by (simp only: two_powi_add)
  finally show ?thesis by simp
qed

lemma two_powi_53: "(2::rat) powi (k + 1) = 2 ^ 53 * 2 powi (k - 52)"
proof -
  have "k + 1 = 53 + (k - 52)" by simp
  then have "(2::rat) powi (k + 1) = 2 powi (53 + (k - 52))" by (rule arg_cong)
  also have "\<dots> = 2 powi 53 * 2 powi (k - 52)" by (simp only: two_powi_add)
  finally show ?thesis by simp
qed

lemma significand_bounds:
  assumes "0 < x"
  shows "2 ^ 52 \<le> round_half_even (x / 2 powi (floor_log2 x - 52))"
    and "round_half_even (x / 2 powi (floor_log2 x - 52)) \<le> 2 ^ 53"
proof -
  let ?u = "(2::rat) powi (floor_log2 x - 52)"
  have u: "0 < ?u" by (rule two_powi_pos)
  from floor_log2_bounds [OF assms]
  have "2 ^ 52 * ?u \<le> x" "x < 2 ^ 53 * ?u"
    by (simp_all only: two_powi_52 [symmetric] two_powi_53 [symmetric])
  with u have "of_int (2 ^ 52) \<le> x / ?u" "x / ?u \<le> of_int (2 ^ 53)"
    by (simp_all add: pos_le_divide_eq pos_divide_le_eq)
  from round_half_even_mono [OF this(1)] round_half_even_mono [OF this(2)]
  show "2 ^ 52 \<le> round_half_even (x / ?u)" "round_half_even (x / ?u) \<le> 2 ^ 53"
    by (simp_all only: round_half_even_of_int)
qed

lemma round_to_double_pos:
  assumes "0 < x"
  shows "round_to_double x
    = of_int (round_half_even (x / 2 powi (floor_log2 x - 52))) * 2 powi (floor_log2 x - 52)"
  using assms by (simp add: round_to_double_def Let_def)

lemma round_to_double_bounds:
  assumes "0 < x"
  shows "2 powi (floor_log2 x) \<le> round_to_double x"
    and "round_to_double x \<le> 2 powi (floor_log2 x + 1)"
proof -
  let ?u = "(2::rat) powi (floor_log2 x - 52)"
  let ?m = "round_half_even (x / ?u)"
  have u: "0 < ?u" by (rule two_powi_pos)
  from significand_bounds [OF assms]
  have "(of_int (2 ^ 52) :: rat) \<le> of_int ?m" "(of_int ?m :: rat) \<le> of_int (2 ^ 53)"
    by (simp_all only: of_int_le_iff)
  then have "2 ^ 52 * ?u \<le> of_int ?m * ?u" "of_int ?m * ?u \<le> 2 ^ 53 * ?u"
    using u by (simp_all add: mult_right_mono)
  then show "2 powi (floor_log2 x) \<le> round_to_double x"
    "round_to_double x \<le> 2 powi (floor_log2 x + 1)"
    by (simp_all only: round_to_double_pos [OF assms] two_powi_52 [symmetric]
          two_powi_53 [symmetric])
qed

lemma round_to_double_error:
  assumes "0 < x"
  shows "\<bar>round_to_double x - x\<bar> \<le> x * 2 powi (- 53)"
proof -
  let ?u = "(2::rat) powi (floor_log2 x - 52)"
  let ?m = "round_half_even (x / ?u)"
  have u: "0 < ?u" by (rule two_powi_pos)
  have "\<bar>of_int ?m - x / ?u\<bar> * ?u \<le> 1 / 2 * ?u"
    using round_half_even_error [of "x / ?u"] u by (simp only: mult_right_mono less_imp_le)
  moreover have "\<bar>of_int ?m - x / ?u\<bar> * ?u = \<bar>of_int ?m * ?u - x\<bar>"
  proof -
    have "\<bar>of_int ?m - x / ?u\<bar> * ?u = \<bar>(of_int ?m - x / ?u) * ?u\<bar>"
      using u by (simp add: abs_mult)
    also have "(of_int ?m - x / ?u) * ?u = of_int ?m * ?u - x"
      using u by (simp add: field_simps)
    finally show ?thesis .
  qed
  moreover have "1 / 2 * ?u \<le> x * 2 powi (- 53)"
  proof -
    have "floor_log2 x - 52 = 1 + (floor_log2 x + (- 53))" by simp
    then have "(2::rat) powi (floor_log2 x - 52) = 2 powi (1 + (floor_log2 x + (- 53)))"
      by (rule arg_cong)
    also have "\<dots> = 2 powi 1 * (2 powi (floor_log2 x) * 2 powi (- 53))"
      by (simp only: two_powi_add)
    finally have "1 / 2 * ?u = 2 powi (floor_log2 x) * 2 powi (- 53)" by simp
    also have "\<dots> \<le> x * 2 powi (- 53)"
      using floor_log2_bounds(1) [OF assms] two_powi_pos [of "- 53"]
      by (simp only: mult_right_mono less_imp_le)
    finally show ?thesis .
  qed
  ultimately show ?thesis by (simp only: round_to_double_pos [OF assms])
qed

lemma round_to_double_minus: "round_to_double (- x) = - round_to_double x"
  by (simp add: round_to_double_def Let_def round_half_even_minus)

lemma round_to_double_nonneg: "0 \<le> x \<Longrightarrow> 0 \<le> round_to_double x"
proof (cases "x = 0")
  case True
  then show ?thesis by (simp add: round_to_double_0)
next
  case False
  assume "0 \<le> x"
  with False have "0 < x" by simp
  from round_to_double_bounds(1) [OF this] two_powi_pos [of "floor_log2 x"]
  show ?thesis by linarith
qed

lemma round_to_double_mono_pos:
  assumes "0 < x" "x \<le> y"
  shows "round_to_double x \<le> round_to_double y"
proof -
  from assms have y: "0 < y" by simp
  have "(2::rat) powi (floor_log2 x) < 2 powi (floor_log2 y + 1)"
    using floor_log2_bounds(1) [OF assms(1)] floor_log2_bounds(2) [OF y] assms(2) by linarith
  then have le: "floor_log2 x \<le> floor_log2 y"
    using two_powi_less_cancel [of "floor_log2 x" "floor_log2 y + 1"] by simp
  show ?thesis
  proof (cases "floor_log2 x = floor_log2 y")
    case True
    let ?u = "(2::rat) powi (floor_log2 y - 52)"
    have u: "0 < ?u" by (rule two_powi_pos)
    from assms(2) u have "x / ?u \<le> y / ?u" by (simp add: divide_right_mono)
    from round_half_even_mono [OF this]
    have "(of_int (round_half_even (x / ?u)) :: rat) \<le> of_int (round_half_even (y / ?u))"
      by (simp only: of_int_le_iff)
    with u have "of_int (round_half_even (x / ?u)) * ?u \<le> of_int (round_half_even (y / ?u)) * ?u"
      by (simp add: mult_right_mono)
    then show ?thesis
      by (simp only: round_to_double_pos [OF assms(1)] round_to_double_pos [OF y] True)
  next
    case False
    with le have "floor_log2 x + 1 \<le> floor_log2 y" by simp
    from two_powi_mono [OF this]
      round_to_double_bounds(2) [OF assms(1)] round_to_double_bounds(1) [OF y]
    show ?thesis by linarith
  qed
qed

lemma round_to_double_mono:
  assumes "x \<le> y"
  shows "round_to_double x \<le> round_to_double y"
proof -
  consider "0 < x" | "x \<le> 0" "0 \<le> y" | "y < 0" by linarith
  then show ?thesis
  proof cases
    case 1
    from round_to_double_mono_pos [OF this assms] show ?thesis .
  next
    case 2
    then have "0 \<le> - x" by simp
    from round_to_double_nonneg [OF this] round_to_double_nonneg [OF 2(2)]
    show ?thesis by (simp add: round_to_double_minus)
  next
    case 3
    with assms have "0 < - y" "- y \<le> - x" by simp_all
    from round_to_double_mono_pos [OF this] show ?thesis
      by (simp add: round_to_double_minus)
  qed
qed

text \<open>A number of at most 53 significant bits is a double.\<close>

lemma round_to_double_exact:
  assumes "\<bar>m\<bar> \<le> 2 ^ 53"
  shows "round_to_double (of_int m * 2 powi e) = of_int m * 2 powi e"
proof (cases "m = 0")
  case True
  then show ?thesis by (simp add: round_to_double_0)
next
  case False
  define x :: rat where "x = of_int m * 2 powi e"
  have e: "0 < (2::rat) powi e" by (rule two_powi_pos)
  from False e have x0: "x \<noteq> 0" by (simp add: x_def)
  have ax: "\<bar>x\<bar> = of_int \<bar>m\<bar> * 2 powi e"
    using e by (simp add: x_def abs_mult)
  from x0 have pos: "0 < \<bar>x\<bar>" by simp
  define k where "k = floor_log2 \<bar>x\<bar>"
  have "\<exists>n. x / 2 powi (k - 52) = of_int n"
  proof (cases "\<bar>m\<bar> = 2 ^ 53")
    case True
    then have "\<bar>x\<bar> = 2 powi (53 + e)"
      by (simp add: ax two_powi_add)
    then have "2 powi (53 + e) \<le> \<bar>x\<bar>" "\<bar>x\<bar> < 2 powi (53 + e + 1)"
      using two_powi_strict_mono [of "53 + e" "53 + e + 1"] by simp_all
    from floor_log2_unique [OF this] have k: "k - 52 = e + 1" by (simp add: k_def)
    have "x / 2 powi (e + 1) = of_int m / 2"
      using e by (simp add: x_def two_powi_Suc)
    moreover from True have "m = 2 * 2 ^ 52 \<or> m = 2 * (- (2 ^ 52))"
      by (cases "0 \<le> m") simp_all
    then obtain n where "m = 2 * n" by blast
    ultimately have "x / 2 powi (e + 1) = of_int n" by simp
    then have "x / 2 powi (k - 52) = of_int n" by (simp only: k)
    then show ?thesis ..
  next
    case False
    with assms have "\<bar>m\<bar> < 2 ^ 53" by simp
    then have "(of_int \<bar>m\<bar> :: rat) < of_int (2 ^ 53)" by (simp only: of_int_less_iff)
    then have "of_int \<bar>m\<bar> * 2 powi e < 2 ^ 53 * (2::rat) powi e"
      using e by (simp add: mult_strict_right_mono)
    also have "\<dots> = 2 powi (53 + e)" by (simp add: two_powi_add)
    finally have "\<bar>x\<bar> < 2 powi (53 + e)" by (simp only: ax)
    with floor_log2_bounds(1) [OF pos] have "(2::rat) powi k < 2 powi (53 + e)"
      by (simp add: k_def)
    then have "k < 53 + e" by (rule two_powi_less_cancel)
    then have d: "0 \<le> e - (k - 52)" by simp
    have "(2::rat) powi e = 2 powi ((e - (k - 52)) + (k - 52))" by simp
    also have "\<dots> = 2 powi (e - (k - 52)) * 2 powi (k - 52)" by (simp only: two_powi_add)
    also have "(2::rat) powi (e - (k - 52)) = 2 ^ nat (e - (k - 52))"
      using d by (simp add: power_int_def)
    finally have "x / 2 powi (k - 52) = of_int m * 2 ^ nat (e - (k - 52))"
      using two_powi_pos [of "k - 52"] by (simp add: x_def)
    also have "\<dots> = of_int (m * 2 ^ nat (e - (k - 52)))" by simp
    finally show ?thesis by blast
  qed
  then obtain n where "x / 2 powi (k - 52) = of_int n" ..
  then have "round_to_double x = of_int n * 2 powi (k - 52)"
    using x0 by (simp add: round_to_double_def Let_def k_def round_half_even_of_int)
  also have "\<dots> = x"
    using \<open>x / 2 powi (k - 52) = of_int n\<close> [symmetric] two_powi_pos [of "k - 52"] by simp
  finally show ?thesis by (simp only: x_def)
qed

lemma round_to_double_of_int:
  "\<bar>n\<bar> \<le> 2 ^ 53 \<Longrightarrow> round_to_double (of_int n) = of_int n"
  using round_to_double_exact [of n 0] by simp

lemma round_to_double_idem: "round_to_double (round_to_double x) = round_to_double x"
proof -
  have pos: "round_to_double (round_to_double x) = round_to_double x" if "0 < x" for x
  proof -
    from significand_bounds [OF that]
    have "\<bar>round_half_even (x / 2 powi (floor_log2 x - 52))\<bar> \<le> 2 ^ 53" by simp
    from round_to_double_exact [OF this, of "floor_log2 x - 52"]
    show ?thesis by (simp only: round_to_double_pos [OF that])
  qed
  consider "0 < x" | "x = 0" | "0 < - x" by linarith
  then show ?thesis
  proof cases
    case 1
    then show ?thesis by (rule pos)
  next
    case 2
    then show ?thesis by (simp add: round_to_double_0)
  next
    case 3
    from pos [OF this] show ?thesis by (simp add: round_to_double_minus)
  qed
qed

lemma round_to_double_error_nonneg:
  assumes "0 \<le> x"
  shows "\<bar>round_to_double x - x\<bar> \<le> x * 2 powi (- 53)"
proof (cases "x = 0")
  case True
  then show ?thesis by (simp add: round_to_double_0)
next
  case False
  with assms have "0 < x" by simp
  then show ?thesis by (rule round_to_double_error)
qed

lemma round_to_double_le_numeral:
  "x \<le> of_int n \<Longrightarrow> \<bar>n\<bar> \<le> 2 ^ 53 \<Longrightarrow> round_to_double x \<le> of_int n"
  using round_to_double_mono [of x "of_int n"] by (simp add: round_to_double_of_int)

lemma Math_round_error: "\<bar>of_int (Math_round p) - p\<bar> \<le> 1 / 2"
proof -
  have "of_int \<lfloor>p + 1 / 2\<rfloor> \<le> p + 1 / 2" "p + 1 / 2 < of_int \<lfloor>p + 1 / 2\<rfloor> + 1"
    by linarith+
  then show ?thesis unfolding Math_round_def by linarith
qed

section \<open>Sums and grouping\<close>

lemma sum_costs_number_sum: "sum_costs cards = number_sum (map cost_or_zero cards)"
  by (simp add: sum_costs_def number_sum_def foldl_map)

lemma number_plus_whole:
  assumes "of_int \<lfloor>a\<rfloor> = a" "of_int \<lfloor>c\<rfloor> = c" "\<bar>a\<bar> + \<bar>c\<bar> \<le> 2 ^ 53"
  shows "number_plus a c = a + c"
proof -
  have s: "a + c = of_int (\<lfloor>a\<rfloor> + \<lfloor>c\<rfloor>)" by (simp only: of_int_add assms(1,2))
  have "\<bar>a + c\<bar> \<le> of_int (2 ^ 53)" using assms(3) by simp
  then have "(of_int \<bar>\<lfloor>a\<rfloor> + \<lfloor>c\<rfloor>\<bar> :: rat) \<le> of_int (2 ^ 53)"
    unfolding s by (simp only: of_int_abs)
  then have "\<bar>\<lfloor>a\<rfloor> + \<lfloor>c\<rfloor>\<bar> \<le> 2 ^ 53" by (simp only: of_int_le_iff)
  from round_to_double_of_int [OF this] show ?thesis
    unfolding number_plus_def s .
qed

lemma foldl_number_plus_exact:
  assumes "list_all (\<lambda>c. of_int \<lfloor>c\<rfloor> = c) cs" "of_int \<lfloor>a\<rfloor> = a"
    "\<bar>a\<bar> + sum_list (map abs cs) \<le> 2 ^ 53"
  shows "foldl number_plus a cs = a + sum_list cs"
  using assms
proof (induction cs arbitrary: a)
  case Nil
  show ?case by simp
next
  case (Cons c cs)
  have nn: "0 \<le> sum_list (map abs cs)" by (rule sum_list_nonneg) auto
  from Cons.prems have c: "of_int \<lfloor>c\<rfloor> = c" and cs: "list_all (\<lambda>c. of_int \<lfloor>c\<rfloor> = c) cs"
    by simp_all
  from Cons.prems(3) nn have "\<bar>a\<bar> + \<bar>c\<bar> \<le> 2 ^ 53" by simp
  from number_plus_whole [OF Cons.prems(2) c this] have step: "number_plus a c = a + c" .
  have w: "of_int \<lfloor>a + c\<rfloor> = a + c"
  proof -
    have "a + c = of_int (\<lfloor>a\<rfloor> + \<lfloor>c\<rfloor>)" by (simp only: of_int_add Cons.prems(2) c)
    then show ?thesis by (metis floor_of_int)
  qed
  have "\<bar>a + c\<bar> + sum_list (map abs cs) \<le> 2 ^ 53"
    using Cons.prems(3) by simp
  from Cons.IH [OF cs w this] show ?case by (simp add: step)
qed

lemma number_sum_exact:
  assumes "list_all (\<lambda>c. of_int \<lfloor>c\<rfloor> = c) cs" "sum_list (map abs cs) \<le> 2 ^ 53"
  shows "number_sum cs = sum_list cs"
  using foldl_number_plus_exact [OF assms(1), of 0] assms(2) by (simp add: number_sum_def)

lemma sum_list_abs_filter:
  "sum_list (map (\<lambda>x. \<bar>f x :: rat\<bar>) (filter P xs)) \<le> sum_list (map (\<lambda>x. \<bar>f x\<bar>) xs)"
  by (induction xs) auto

lemma whole_amounts_filter: "whole_amounts cards \<Longrightarrow> whole_amounts (filter P cards)"
  unfolding whole_amounts_def
  using sum_list_abs_filter [of cost_or_zero P cards]
  by (auto simp: list_all_iff)

lemma sum_costs_exact:
  assumes "whole_amounts cards"
  shows "sum_costs cards = sum_list (map cost_or_zero cards)"
proof -
  from assms have "list_all (\<lambda>c. of_int \<lfloor>c\<rfloor> = c) (map cost_or_zero cards)"
    "sum_list (map abs (map cost_or_zero cards)) \<le> 2 ^ 53"
    by (simp_all add: whole_amounts_def list_all_iff comp_def)
  from number_sum_exact [OF this] show ?thesis by (simp only: sum_costs_number_sum)
qed

text \<open>Rounded sums of non-negative amounts grow with the rows.\<close>

lemma foldl_number_plus_double:
  "round_to_double a = a \<Longrightarrow> round_to_double (foldl number_plus a cs) = foldl number_plus a cs"
  by (induction cs arbitrary: a) (simp_all add: number_plus_def round_to_double_idem)

lemma sum_costs_filter_le_aux:
  assumes "\<forall>crd \<in> set cards. 0 \<le> cost_or_zero crd" "a \<le> b" "round_to_double a = a"
  shows "foldl (\<lambda>sum crd. number_plus sum (cost_or_zero crd)) a (filter P cards)
       \<le> foldl (\<lambda>sum crd. number_plus sum (cost_or_zero crd)) b cards"
  using assms
proof (induction cards arbitrary: a b)
  case Nil
  then show ?case by simp
next
  case (Cons crd cards)
  from Cons.prems(1) have c: "0 \<le> cost_or_zero crd"
    and rest: "\<forall>crd \<in> set cards. 0 \<le> cost_or_zero crd" by simp_all
  show ?case
  proof (cases "P crd")
    case True
    from Cons.prems(2) have "a + cost_or_zero crd \<le> b + cost_or_zero crd" by simp
    then have "number_plus a (cost_or_zero crd) \<le> number_plus b (cost_or_zero crd)"
      unfolding number_plus_def by (rule round_to_double_mono)
    moreover have "round_to_double (number_plus a (cost_or_zero crd)) = number_plus a (cost_or_zero crd)"
      by (simp add: number_plus_def round_to_double_idem)
    ultimately show ?thesis
      using Cons.IH [OF rest] True by simp
  next
    case False
    from Cons.prems(2) c have "a \<le> b + cost_or_zero crd" by simp
    then have "round_to_double a \<le> number_plus b (cost_or_zero crd)"
      unfolding number_plus_def by (rule round_to_double_mono)
    then have "a \<le> number_plus b (cost_or_zero crd)" by (simp only: Cons.prems(3))
    from Cons.IH [OF rest this Cons.prems(3)] False show ?thesis by simp
  qed
qed

lemma sum_costs_filter_le:
  assumes "\<forall>crd \<in> set cards. 0 \<le> cost_or_zero crd"
  shows "sum_costs (filter P cards) \<le> sum_costs cards"
  unfolding sum_costs_def
  by (rule sum_costs_filter_le_aux [OF assms]) (simp_all add: round_to_double_0)

lemma number_minus_nonpos: "x \<le> y \<Longrightarrow> number_minus x y \<le> 0"
  using round_to_double_mono [of "x - y" 0] by (simp add: number_minus_def round_to_double_0)

lemma map_fst_map_set:
  "map fst (map_set m k v) = (if k \<in> fst ` set m then map fst m else map fst m @ [k])"
  by (induction m) force+

lemma map_of_map_set: "map_of (map_set m k v) = (map_of m)(k \<mapsto> v)"
  by (induction m) auto

lemma set_first_occurrences: "set (first_occurrences xs) = set xs"
  by (induction xs) auto

lemma distinct_first_occurrences: "distinct (first_occurrences xs)"
  by (induction xs) (auto simp: distinct_removeAll)

lemma map_fst_add_card:
  "map fst (add_card m crd) =
     (if category_or_default crd \<in> set (map fst m) then map fst m
      else map fst m @ [category_or_default crd])"
  by (simp add: add_card_def Let_def map_fst_map_set)

lemma filter_removeAll_notin:
  "filter (\<lambda>k. k \<notin> insert x A) xs = filter (\<lambda>k. k \<notin> A) (removeAll x xs)"
  by (induction xs) auto

lemma filter_removeAll_in:
  "x \<in> A \<Longrightarrow> filter (\<lambda>k. k \<notin> A) (removeAll x xs) = filter (\<lambda>k. k \<notin> A) xs"
  by (induction xs) auto

lemma map_fst_foldl_add_card:
  "map fst (foldl add_card m cards) =
     map fst m @ filter (\<lambda>k. k \<notin> set (map fst m))
                   (first_occurrences (map category_or_default cards))"
proof (induction cards arbitrary: m)
  case Nil
  show ?case by simp
next
  case (Cons crd cards)
  show ?case
  proof (cases "category_or_default crd \<in> set (map fst m)")
    case True
    then show ?thesis
      using Cons.IH [of "add_card m crd"]
      by (simp add: map_fst_add_card filter_removeAll_in del: set_map)
  next
    case False
    then show ?thesis
      using Cons.IH [of "add_card m crd"]
      by (simp add: map_fst_add_card filter_removeAll_notin [symmetric] del: set_map)
  qed
qed

lemma map_of_add_card:
  "map_of (add_card m crd) k =
     (if k = category_or_default crd
      then Some (number_plus (fst (case map_of m k of None \<Rightarrow> (0, 0) | Some e \<Rightarrow> e))
                   (cost_or_zero crd),
                 snd (case map_of m k of None \<Rightarrow> (0, 0) | Some e \<Rightarrow> e) + 1)
      else map_of m k)"
  by (simp add: add_card_def Let_def map_of_map_set)

lemma map_of_foldl_add_card:
  "map_of (foldl add_card m cards) k =
     (let members = filter (\<lambda>crd. category_or_default crd = k) cards;
          start = (case map_of m k of None \<Rightarrow> (0, 0) | Some e \<Rightarrow> e)
      in if members = [] then map_of m k
         else Some (foldl number_plus (fst start) (map cost_or_zero members),
                    snd start + length members))"
proof (induction cards arbitrary: m)
  case Nil
  show ?case by simp
next
  case (Cons crd cards)
  show ?case
    using Cons.IH [of "add_card m crd"]
    by (auto simp: map_of_add_card Let_def split: option.splits)
qed

lemma assoc_list_by_keys:
  "distinct (map fst m) \<Longrightarrow> m = map (\<lambda>k. (k, the (map_of m k))) (map fst m)"
proof (induction m)
  case Nil
  show ?case by simp
next
  case (Cons p m)
  obtain k v where p: "p = (k, v)" by (cases p)
  from Cons.prems p have notin: "k \<notin> fst ` set m" and d: "distinct (map fst m)" by auto
  have "map (\<lambda>k'. (k', the (map_of ((k, v) # m) k'))) (map fst m)
        = map (\<lambda>k'. (k', the (map_of m k'))) (map fst m)"
    using notin by (intro map_cong) auto
  with Cons.IH [OF d] p show ?case by simp
qed

lemma build_category_map_groups:
  "category_entries (build_category_map cards) =
     map (group_entry cards) (first_occurrences (map category_or_default cards))"
proof -
  let ?m = "build_category_map cards"
  let ?ks = "first_occurrences (map category_or_default cards)"
  have keys: "map fst ?m = ?ks"
    using map_fst_foldl_add_card [of "[]" cards] by (simp add: build_category_map_def)
  then have "distinct (map fst ?m)" by (simp add: distinct_first_occurrences)
  from assoc_list_by_keys [OF this] keys
  have m: "?m = map (\<lambda>k. (k, the (map_of ?m k))) ?ks" by simp
  have val: "the (map_of ?m k) =
       (number_sum (map cost_or_zero (filter (\<lambda>crd. category_or_default crd = k) cards)),
        length (filter (\<lambda>crd. category_or_default crd = k) cards))"
    if "k \<in> set ?ks" for k
  proof -
    from that have "k \<in> set (map category_or_default cards)"
      by (simp only: set_first_occurrences)
    then have "filter (\<lambda>crd. category_or_default crd = k) cards \<noteq> []"
      by (auto simp: filter_empty_conv)
    then show ?thesis
      using map_of_foldl_add_card [of "[]" cards k]
      by (simp add: build_category_map_def Let_def number_sum_def)
  qed
  have "category_entries ?m = category_entries (map (\<lambda>k. (k, the (map_of ?m k))) ?ks)"
    using m by simp
  also have "\<dots> = map (group_entry cards) ?ks"
    unfolding category_entries_def map_map
    by (rule map_cong) (simp_all add: val group_entry_def Let_def)
  finally show ?thesis .
qed

lemma sum_count_add_card:
  "sum_list (map (\<lambda>p. snd (snd p)) (add_card m crd)) =
     sum_list (map (\<lambda>p. snd (snd p)) m) + 1"
  unfolding add_card_def Let_def
  by (induction m) auto

lemma sum_count_foldl_add_card:
  "sum_list (map (\<lambda>p. snd (snd p)) (foldl add_card m cards)) =
     sum_list (map (\<lambda>p. snd (snd p)) m) + length cards"
  by (induction cards arbitrary: m) (simp_all add: sum_count_add_card)

lemma sum_count_entries:
  "sum_list (map count (category_entries (build_category_map cards))) = length cards"
  using sum_count_foldl_add_card [of "[]" cards]
  by (simp add: category_entries_def build_category_map_def comp_def case_prod_unfold)

lemma distinct_entry_names:
  "distinct (map name (category_entries (build_category_map cards)))"
proof -
  have "map name (category_entries (build_category_map cards))
        = map fst (build_category_map cards)"
    by (simp add: category_entries_def comp_def case_prod_unfold)
  then show ?thesis
    using map_fst_foldl_add_card [of "[]" cards]
    by (simp add: build_category_map_def distinct_first_occurrences)
qed

text \<open>The sums of the groups of a list add up to the sum of the list.\<close>

lemma sum_groups:
  assumes "finite K" "f ` set xs \<subseteq> K"
  shows "(\<Sum>k\<in>K. sum_list (map g (filter (\<lambda>x. f x = k) xs))) = (sum_list (map g xs) :: rat)"
  using assms(2)
proof (induction xs)
  case Nil
  show ?case by simp
next
  case (Cons x xs)
  then have x: "f x \<in> K" and rest: "f ` set xs \<subseteq> K" by simp_all
  have "(\<Sum>k\<in>K. sum_list (map g (filter (\<lambda>x. f x = k) (x # xs))))
      = (\<Sum>k\<in>K. (if k = f x then g x else 0) + sum_list (map g (filter (\<lambda>x. f x = k) xs)))"
    by (rule sum.cong) auto
  also have "\<dots> = (\<Sum>k\<in>K. if k = f x then g x else 0)
      + (\<Sum>k\<in>K. sum_list (map g (filter (\<lambda>x. f x = k) xs)))"
    by (rule sum.distrib)
  also have "(\<Sum>k\<in>K. if k = f x then g x else 0) = g x"
    using assms(1) x by (simp add: sum.delta)
  finally show ?case using Cons.IH [OF rest] by simp
qed

lemma sum_amount_entries:
  assumes "whole_amounts cards"
  shows "sum_list (map amount (category_entries (build_category_map cards))) = sum_costs cards"
proof -
  let ?ks = "first_occurrences (map category_or_default cards)"
  have am: "amount (group_entry cards k)
      = sum_list (map cost_or_zero (filter (\<lambda>crd. category_or_default crd = k) cards))" for k
    using sum_costs_exact [OF whole_amounts_filter [OF assms]]
    by (simp add: group_entry_def Let_def sum_costs_number_sum)
  have "sum_list (map amount (category_entries (build_category_map cards)))
      = sum_list (map (\<lambda>k. sum_list (map cost_or_zero
          (filter (\<lambda>crd. category_or_default crd = k) cards))) ?ks)"
    by (simp add: build_category_map_groups comp_def am)
  also have "\<dots> = (\<Sum>k\<in>set ?ks. sum_list (map cost_or_zero
          (filter (\<lambda>crd. category_or_default crd = k) cards)))"
    by (rule sum_list_distinct_conv_sum_set) (rule distinct_first_occurrences)
  also have "\<dots> = sum_list (map cost_or_zero cards)"
    by (rule sum_groups) (simp_all add: set_first_occurrences)
  finally show ?thesis by (simp only: sum_costs_exact [OF assms])
qed

text \<open>With whole amounts the difference of the totals does not round either.\<close>

lemma sum_list_filter_split:
  "sum_list (map f xs) - sum_list (map f (filter P xs))
     = (sum_list (map f (filter (\<lambda>x. \<not> P x) xs)) :: rat)"
  by (induction xs) auto

lemma abs_sum_list_le: "\<bar>sum_list (map f xs) :: rat\<bar> \<le> sum_list (map (\<lambda>x. \<bar>f x\<bar>) xs)"
  by (induction xs) auto

lemma whole_sum_list:
  "list_all (\<lambda>x. of_int \<lfloor>f x\<rfloor> = (f x :: rat)) xs
     \<Longrightarrow> of_int \<lfloor>sum_list (map f xs)\<rfloor> = sum_list (map f xs)"
proof (induction xs)
  case Nil
  show ?case by simp
next
  case (Cons x xs)
  then have x: "of_int \<lfloor>f x\<rfloor> = f x"
    and xs: "of_int \<lfloor>sum_list (map f xs)\<rfloor> = sum_list (map f xs)" by simp_all
  have "f x + sum_list (map f xs) = of_int (\<lfloor>f x\<rfloor> + \<lfloor>sum_list (map f xs)\<rfloor>)"
    by (simp only: of_int_add x xs)
  then have "of_int \<lfloor>f x + sum_list (map f xs)\<rfloor> = f x + sum_list (map f xs)"
    by (metis floor_of_int)
  then show ?case by simp
qed

lemma number_minus_exact:
  assumes "whole_amounts cards"
  shows "number_minus (sum_costs (filter P cards)) (sum_costs cards)
       = sum_costs (filter P cards) - sum_costs cards"
proof -
  let ?d = "sum_list (map cost_or_zero (filter (\<lambda>x. \<not> P x) cards))"
  from assms have w: "list_all (\<lambda>crd. of_int \<lfloor>cost_or_zero crd\<rfloor> = cost_or_zero crd) cards"
    and b: "sum_list (map (\<lambda>crd. \<bar>cost_or_zero crd\<bar>) cards) \<le> 2 ^ 53"
    by (simp_all add: whole_amounts_def)
  have diff: "sum_costs (filter P cards) - sum_costs cards = - ?d"
    using sum_list_filter_split [of cost_or_zero cards P]
    by (simp add: sum_costs_exact [OF assms] sum_costs_exact [OF whole_amounts_filter [OF assms]])
  from w have "list_all (\<lambda>crd. of_int \<lfloor>cost_or_zero crd\<rfloor> = cost_or_zero crd)
      (filter (\<lambda>x. \<not> P x) cards)"
    by (simp add: list_all_iff)
  from whole_sum_list [OF this] have whole: "of_int \<lfloor>?d\<rfloor> = ?d" .
  have "\<bar>?d\<bar> \<le> sum_list (map (\<lambda>crd. \<bar>cost_or_zero crd\<bar>) (filter (\<lambda>x. \<not> P x) cards))"
    by (rule abs_sum_list_le)
  also have "\<dots> \<le> sum_list (map (\<lambda>crd. \<bar>cost_or_zero crd\<bar>) cards)"
    by (rule sum_list_abs_filter)
  finally have "\<bar>?d\<bar> \<le> of_int (2 ^ 53)" using b by simp
  then have "(of_int \<bar>\<lfloor>?d\<rfloor>\<bar> :: rat) \<le> of_int (2 ^ 53)"
    by (simp only: of_int_abs whole)
  then have "\<bar>- \<lfloor>?d\<rfloor>\<bar> \<le> 2 ^ 53" by (simp only: of_int_le_iff abs_minus_cancel)
  from round_to_double_of_int [OF this] have "round_to_double (- ?d) = - ?d"
    by (simp only: of_int_minus whole)
  then show ?thesis by (simp only: number_minus_def diff)
qed

text \<open>Neither does the sum of the amounts, added as JavaScript adds them.\<close>

lemma number_sum_amount_entries:
  assumes "whole_amounts cards"
  shows "number_sum (map amount (category_entries (build_category_map cards))) = sum_costs cards"
proof -
  let ?ks = "first_occurrences (map category_or_default cards)"
  let ?members = "\<lambda>k. filter (\<lambda>crd. category_or_default crd = k) cards"
  let ?A = "\<lambda>k. sum_list (map cost_or_zero (?members k))"
  from assms have w: "list_all (\<lambda>crd. of_int \<lfloor>cost_or_zero crd\<rfloor> = cost_or_zero crd) cards"
    and b: "sum_list (map (\<lambda>crd. \<bar>cost_or_zero crd\<bar>) cards) \<le> 2 ^ 53"
    by (simp_all add: whole_amounts_def)
  have am: "amount (group_entry cards k) = ?A k" for k
    using sum_costs_exact [OF whole_amounts_filter [OF assms]]
    by (simp add: group_entry_def Let_def sum_costs_number_sum)
  have amounts: "map amount (category_entries (build_category_map cards)) = map ?A ?ks"
    by (simp add: build_category_map_groups comp_def am)
  have whole: "list_all (\<lambda>c. of_int \<lfloor>c\<rfloor> = c) (map ?A ?ks)"
  proof -
    have "of_int \<lfloor>?A k\<rfloor> = ?A k" for k
      by (rule whole_sum_list) (use w in \<open>simp add: list_all_iff\<close>)
    then show ?thesis by (simp add: list_all_iff)
  qed
  have "sum_list (map abs (map ?A ?ks))
      \<le> sum_list (map (\<lambda>k. sum_list (map (\<lambda>crd. \<bar>cost_or_zero crd\<bar>) (?members k))) ?ks)"
    unfolding map_map comp_def by (rule sum_list_mono) (rule abs_sum_list_le)
  also have "\<dots> = (\<Sum>k\<in>set ?ks. sum_list (map (\<lambda>crd. \<bar>cost_or_zero crd\<bar>) (?members k)))"
    by (rule sum_list_distinct_conv_sum_set) (rule distinct_first_occurrences)
  also have "\<dots> = sum_list (map (\<lambda>crd. \<bar>cost_or_zero crd\<bar>) cards)"
    by (rule sum_groups) (simp_all add: set_first_occurrences)
  finally have "sum_list (map abs (map ?A ?ks)) \<le> 2 ^ 53" using b by simp
  from number_sum_exact [OF whole this]
  have "number_sum (map amount (category_entries (build_category_map cards)))
      = sum_list (map amount (category_entries (build_category_map cards)))"
    by (simp only: amounts)
  then show ?thesis by (simp only: sum_amount_entries [OF assms])
qed

section \<open>Calendar arithmetic\<close>

lemma div_plus1:
  fixes x n :: int
  assumes "0 < n"
  shows "(x + 1) div n = x div n + (if (x + 1) mod n = 0 then 1 else 0)"
proof -
  define q where "q = x div n"
  define r where "r = x mod n"
  have x: "x = n * q + r" by (simp add: q_def r_def)
  have r: "0 \<le> r" "r < n" using assms by (simp_all add: r_def)
  show ?thesis
  proof (cases "r = n - 1")
    case True
    then have e: "x + 1 = n * (q + 1) + 0" using x by (simp add: algebra_simps)
    have "(x + 1) div n = q + 1"
      by (rule int_div_pos_eq [OF e]) (use assms in simp_all)
    moreover have "(x + 1) mod n = 0"
      by (rule int_mod_pos_eq [OF e]) (use assms in simp_all)
    ultimately show ?thesis by (simp add: q_def)
  next
    case False
    then have e: "x + 1 = n * q + (r + 1)" and b: "0 \<le> r + 1" "r + 1 < n"
      using x r by simp_all
    have "(x + 1) div n = q"
      by (rule int_div_pos_eq [OF e b])
    moreover have "(x + 1) mod n = r + 1"
      by (rule int_mod_pos_eq [OF e b])
    ultimately show ?thesis using r by (simp add: q_def)
  qed
qed

lemma mod_shift4: "(y - 1968) mod 4 = y mod (4::int)"
  using mod_mult_self2 [of y 4 "-492"] by simp

lemma mod_shift100: "(y - 1900) mod 100 = y mod (100::int)"
  using mod_mult_self2 [of y 100 "-19"] by simp

lemma mod_shift400: "(y - 1600) mod 400 = y mod (400::int)"
  using mod_mult_self2 [of y 400 "-4"] by simp

lemma mod_400_100: "y mod 400 = 0 \<Longrightarrow> y mod (100::int) = 0"
  using mod_mod_cancel [of 100 400 y] by simp

lemma mod_100_4: "y mod 100 = 0 \<Longrightarrow> y mod (4::int) = 0"
  using mod_mod_cancel [of 4 100 y] by simp

lemma DayFromYear_Suc: "DayFromYear (y + 1) = DayFromYear y + DaysInYear y"
proof -
  have a: "(y - 1968) div 4 = (y - 1969) div 4 + (if y mod 4 = 0 then 1 else 0)"
    using div_plus1 [of 4 "y - 1969"] mod_shift4 [of y] by simp
  have b: "(y - 1900) div 100 = (y - 1901) div 100 + (if y mod 100 = 0 then 1 else 0)"
    using div_plus1 [of 100 "y - 1901"] mod_shift100 [of y] by simp
  have c: "(y - 1600) div 400 = (y - 1601) div 400 + (if y mod 400 = 0 then 1 else 0)"
    using div_plus1 [of 400 "y - 1601"] mod_shift400 [of y] by simp
  show ?thesis
    using mod_400_100 [of y] mod_100_4 [of y]
    by (simp add: DayFromYear_def DaysInYear_def a b c)
qed

lemma DaysInYear_cases: "DaysInYear y = 365 \<or> DaysInYear y = 366"
  by (simp add: DaysInYear_def)

lemma DayFromYear_mono_step: "DayFromYear y < DayFromYear (y + 1)"
  using DaysInYear_cases [of y] by (auto simp: DayFromYear_Suc)

lemma DayFromYear_mono_nat: "DayFromYear y \<le> DayFromYear (y + int n)"
proof (induction n)
  case 0
  show ?case by simp
next
  case (Suc n)
  have "DayFromYear (y + int n) < DayFromYear (y + int n + 1)"
    by (rule DayFromYear_mono_step)
  moreover have "y + int (Suc n) = y + int n + 1" by simp
  ultimately show ?case using Suc by (simp only:)
qed

lemma DayFromYear_mono: "y \<le> z \<Longrightarrow> DayFromYear y \<le> DayFromYear z"
  using DayFromYear_mono_nat [of y "nat (z - y)"] by simp

lemma DayFromYear_strict_mono: "y < z \<Longrightarrow> DayFromYear y < DayFromYear z"
  using DayFromYear_mono [of "y + 1" z] DayFromYear_mono_step [of y] by simp

lemma DayFromYear_less_iff: "DayFromYear y < DayFromYear z \<longleftrightarrow> y < z"
  using DayFromYear_strict_mono [of y z] DayFromYear_mono [of z y] by fastforce

text \<open>The estimate of \<open>year_from_day\<close> is off by at most one year.\<close>

lemma leap_days_upper:
  fixes y :: int
  assumes "4 * a \<le> y - 1969" "y - 2000 \<le> 100 * b" "400 * c \<le> y - 1601"
  shows "400 * (365 * (y - 1970) + a - b + c) \<le> 146097 * (y - 1970) + 1200"
proof -
  have "400 * a \<le> 100 * (y - 1969)" using assms(1) by simp
  moreover have "4 * (y - 2000) \<le> 400 * b" using assms(2) by simp
  ultimately show ?thesis using assms(3) by (simp add: algebra_simps)
qed

lemma leap_days_lower:
  fixes y :: int
  assumes "y - 1972 \<le> 4 * a" "100 * b \<le> y - 1901" "y - 2000 \<le> 400 * c"
  shows "146097 * (y - 1970) - 1200 \<le> 400 * (365 * (y - 1970) + a - b + c)"
proof -
  have "100 * (y - 1972) \<le> 400 * a" using assms(1) by simp
  moreover have "400 * b \<le> 4 * (y - 1901)" using assms(2) by simp
  ultimately show ?thesis using assms(3) by (simp add: algebra_simps)
qed

lemma div_lower:
  fixes x n :: int
  assumes "0 < n"
  shows "x - (n - 1) \<le> n * (x div n)"
  using pos_mod_bound [OF assms, of x] mult_div_mod_eq [of n x] by linarith

lemma div_upper:
  fixes x n :: int
  assumes "0 < n"
  shows "n * (x div n) \<le> x"
  using pos_mod_sign [OF assms, of x] mult_div_mod_eq [of n x] by linarith

lemma DayFromYear_upper: "400 * DayFromYear y \<le> 146097 * (y - 1970) + 1200"
  unfolding DayFromYear_def
  by (rule leap_days_upper)
     (use div_upper [of 4 "y - 1969"] div_lower [of 100 "y - 1901"]
        div_upper [of 400 "y - 1601"] in simp_all)

lemma DayFromYear_lower: "146097 * (y - 1970) - 1200 \<le> 400 * DayFromYear y"
  unfolding DayFromYear_def
  by (rule leap_days_lower)
     (use div_lower [of 4 "y - 1969"] div_upper [of 100 "y - 1901"]
        div_lower [of 400 "y - 1601"] in simp_all)

lemma estimate_low:
  fixes d :: int
  assumes "400 * D \<le> 146097 * (z - 1970) + 1200" "146097 * (z + 1 - 1970) \<le> 400 * d"
  shows "D \<le> d"
  using assms by simp

lemma estimate_high:
  fixes d :: int
  assumes "146097 * (z - 1970) - 1200 \<le> 400 * D" "400 * d - 146096 \<le> 146097 * (z - 2 - 1970)"
  shows "d < D"
  using assms by simp

text \<open>\<open>year_from_day\<close> meets the definition of \<open>YearFromTime\<close>.\<close>

lemma year_from_day_bounds:
  "DayFromYear (year_from_day d) \<le> d \<and> d < DayFromYear (year_from_day d + 1)"
proof -
  define y where "y = 1970 + (400 * d) div 146097"
  have lo: "146097 * (y - 1970) \<le> 400 * d"
    unfolding y_def using div_upper [of 146097 "400 * d"] by simp
  have hi: "400 * d - 146096 \<le> 146097 * (y - 1970)"
    unfolding y_def using div_lower [of 146097 "400 * d"] by simp
  have a: "DayFromYear (y - 1) \<le> d"
    by (rule estimate_low [OF DayFromYear_upper [of "y - 1"]]) (use lo in simp)
  have b: "d < DayFromYear (y + 1 + 1)"
    by (rule estimate_high [OF DayFromYear_lower [of "y + 1 + 1"]]) (use hi in simp)
  have c: "y - 1 + 1 = y" by simp
  have yfd: "year_from_day d =
      (if DayFromYear (y + 1) \<le> d then y + 1 else if DayFromYear y \<le> d then y else y - 1)"
    by (simp add: year_from_day_def y_def Let_def)
  show ?thesis
  proof (cases "DayFromYear (y + 1) \<le> d")
    case True
    with yfd b show ?thesis by simp
  next
    case False
    note F = this
    show ?thesis
    proof (cases "DayFromYear y \<le> d")
      case True
      with yfd F show ?thesis by simp
    next
      case False
      with yfd F a c show ?thesis by simp
    qed
  qed
qed

lemma year_from_day_unique:
  assumes "DayFromYear y \<le> d" "d < DayFromYear (y + 1)"
  shows "year_from_day d = y"
proof -
  let ?z = "year_from_day d"
  have z: "DayFromYear ?z \<le> d" "d < DayFromYear (?z + 1)"
    using year_from_day_bounds [of d] by simp_all
  have "DayFromYear y < DayFromYear (?z + 1)" using assms z by linarith
  then have "y < ?z + 1" by (simp only: DayFromYear_less_iff)
  moreover have "DayFromYear ?z < DayFromYear (y + 1)" using assms z by linarith
  then have "?z < y + 1" by (simp only: DayFromYear_less_iff)
  ultimately show ?thesis by linarith
qed

lemma DaysInYear_leap: "DaysInYear y = (if is_leap y then 366 else 365)"
proof (cases "y mod 4 = 0")
  case False
  then show ?thesis by (simp add: DaysInYear_def is_leap_def)
next
  case four: True
  show ?thesis
  proof (cases "y mod 100 = 0")
    case False
    with four show ?thesis by (simp add: DaysInYear_def is_leap_def)
  next
    case hundred: True
    show ?thesis
    proof (cases "y mod 400 = 0")
      case False
      with four hundred show ?thesis by (simp add: DaysInYear_def is_leap_def)
    next
      case True
      with four hundred show ?thesis by (simp add: DaysInYear_def is_leap_def)
    qed
  qed
qed

lemma month_cases:
  fixes m :: int
  assumes "1 \<le> m" "m \<le> 12"
  obtains "m = 1" | "m = 2" | "m = 3" | "m = 4" | "m = 5" | "m = 6"
    | "m = 7" | "m = 8" | "m = 9" | "m = 10" | "m = 11" | "m = 12"
proof -
  from assms have "m = 1 \<or> m = 2 \<or> m = 3 \<or> m = 4 \<or> m = 5 \<or> m = 6
    \<or> m = 7 \<or> m = 8 \<or> m = 9 \<or> m = 10 \<or> m = 11 \<or> m = 12"
    by presburger
  with that show ?thesis by blast
qed

text \<open>Month \<open>m\<close> ends where month \<open>m + 1\<close> begins.\<close>

lemma month_start_next:
  assumes "1 \<le> m" "m \<le> 11"
  shows "month_start (if is_leap y then 1 else 0) m =
         month_start (if is_leap y then 1 else 0) (m - 1) + days_in_month y m"
proof -
  from assms have "1 \<le> m" "m \<le> 12" "m \<noteq> 12" by simp_all
  then show ?thesis
    by (cases rule: month_cases) (simp_all add: month_start_def days_in_month_def)
qed

lemma year_end:
  "DayFromYear (y + 1) =
     DayFromYear y + month_start (if is_leap y then 1 else 0) 11 + days_in_month y 12"
  by (simp add: DayFromYear_Suc DaysInYear_leap month_start_def days_in_month_def)

lemma month_start_bounds:
  assumes "0 \<le> mn" "mn \<le> 11" "leap = 0 \<or> leap = 1"
  shows "0 \<le> month_start leap mn \<and> month_start leap mn \<le> 335"
  using assms by (auto simp: month_start_def)

lemma days_in_month_bounds: "28 \<le> days_in_month y m \<and> days_in_month y m \<le> 31"
  by (simp add: days_in_month_def)

text \<open>The day number of a day of a month, and the fields read back from it.\<close>

lemma day_in_year_bounds:
  assumes "1 \<le> m" "m \<le> 12" "1 \<le> d" "d \<le> days_in_month y m"
  shows "DayFromYear y \<le> DayFromYear y + month_start (if is_leap y then 1 else 0) (m - 1) + (d - 1)"
    and "DayFromYear y + month_start (if is_leap y then 1 else 0) (m - 1) + (d - 1) < DayFromYear (y + 1)"
proof -
  from assms(1,2) show "DayFromYear y \<le> DayFromYear y + month_start (if is_leap y then 1 else 0) (m - 1) + (d - 1)"
    using assms(3) by (cases rule: month_cases) (simp_all add: month_start_def)
  from assms(1,2) show "DayFromYear y + month_start (if is_leap y then 1 else 0) (m - 1) + (d - 1) < DayFromYear (y + 1)"
    using assms(4)
    by (cases rule: month_cases)
       (simp_all add: DayFromYear_Suc DaysInYear_leap month_start_def days_in_month_def split: if_splits)
qed

lemma Day_MakeDate:
  assumes "0 \<le> r" "r < msPerDay"
  shows "Day (D * msPerDay + r) = D"
  unfolding Day_def
  by (rule int_div_pos_eq [of _ _ _ r]) (use assms in \<open>simp_all add: mult.commute\<close>)

lemma mod_MakeDate:
  assumes "0 \<le> r" "r < msPerDay"
  shows "(D * msPerDay + r) mod msPerDay = r"
  by (rule int_mod_pos_eq [of _ _ D]) (use assms in \<open>simp_all add: mult.commute\<close>)

text \<open>
  An instant of day \<open>d\<close> of month \<open>m\<close> of year \<open>y\<close>, \<open>r\<close> milliseconds into the
  day, and the fields that the getters read from it.
\<close>

lemma fields_of_instant:
  assumes m: "1 \<le> m" "m \<le> 12" and d: "1 \<le> d" "d \<le> days_in_month y m"
    and r: "0 \<le> r" "r < msPerDay"
    and t: "t = (DayFromYear y + month_start (if is_leap y then 1 else 0) (m - 1) + (d - 1)) * msPerDay + r"
  shows "YearFromTime t = y" and "MonthFromTime t = m - 1" and "DateFromTime t = d"
proof -
  let ?L = "if is_leap y then 1 else 0 :: int"
  have day: "Day t = DayFromYear y + month_start ?L (m - 1) + (d - 1)"
    unfolding t by (rule Day_MakeDate [OF r])
  show year: "YearFromTime t = y"
    unfolding YearFromTime_def day
    by (rule year_from_day_unique) (rule day_in_year_bounds [OF m d])+
  have leap: "InLeapYear t = ?L"
    by (simp add: InLeapYear_def year DaysInYear_leap)
  have dwy: "DayWithinYear t = month_start ?L (m - 1) + (d - 1)"
    by (simp add: DayWithinYear_def year day)
  from m show month: "MonthFromTime t = m - 1"
    using d
    by (cases rule: month_cases)
       (auto simp add: MonthFromTime_def dwy leap month_start_def days_in_month_def Let_def
          split: if_splits)
  show "DateFromTime t = d"
    by (simp add: DateFromTime_def dwy leap month)
qed

lemma time_split: "t = Day t * msPerDay + t mod msPerDay"
  by (simp add: Day_def)

lemma time_in_day: "0 \<le> t mod msPerDay \<and> t mod msPerDay < msPerDay"
  by (simp add: msPerDay_def)

lemma Day_bounds_iff:
  "a * msPerDay \<le> t \<and> t \<le> (b - 1) * msPerDay + 86399999 \<longleftrightarrow> a \<le> Day t \<and> Day t < b"
proof -
  define D where "D = Day t"
  define r where "r = t mod msPerDay"
  have t: "t = D * 86400000 + r" and r: "0 \<le> r" "r < 86400000"
    using time_split [of t] time_in_day [of t] by (simp_all add: D_def r_def msPerDay_def)
  have 1: "a * msPerDay \<le> t \<longleftrightarrow> a \<le> D"
    unfolding msPerDay_def using t r by auto
  have 2: "t \<le> (b - 1) * msPerDay + 86399999 \<longleftrightarrow> D < b"
    unfolding msPerDay_def using t r by auto
  show ?thesis using 1 2 by (simp add: D_def)
qed

lemma day_of_in_month:
  assumes m: "1 \<le> m" "m \<le> 12" and "in_month y m t"
  shows "DayFromYear y + month_start (if is_leap y then 1 else 0) (m - 1) \<le> Day t"
    and "Day t < DayFromYear y + month_start (if is_leap y then 1 else 0) (m - 1) + days_in_month y m"
proof -
  let ?L = "if is_leap y then 1 else 0 :: int"
  from assms have year: "YearFromTime t = y" and month: "MonthFromTime t = m - 1"
    by (simp_all add: in_month_def)
  have leap: "InLeapYear t = ?L"
    by (simp add: InLeapYear_def year DaysInYear_leap)
  define w where "w = DayWithinYear t"
  have D: "Day t = DayFromYear y + w"
    by (simp add: w_def DayWithinYear_def year)
  have w: "0 \<le> w" "w < 365 + ?L"
    using year_from_day_bounds [of "Day t"] year
    by (auto simp add: w_def DayWithinYear_def YearFromTime_def DayFromYear_Suc DaysInYear_leap
          split: if_splits)
  have chain: "(if w < 31 then 0
         else if w < 59 + ?L then 1
         else if w < 90 + ?L then 2
         else if w < 120 + ?L then 3
         else if w < 151 + ?L then 4
         else if w < 181 + ?L then 5
         else if w < 212 + ?L then 6
         else if w < 243 + ?L then 7
         else if w < 273 + ?L then 8
         else if w < 304 + ?L then 9
         else if w < 334 + ?L then 10
         else 11) = m - 1"
    using month unfolding MonthFromTime_def Let_def leap w_def .
  from m have "month_start ?L (m - 1) \<le> w \<and> w < month_start ?L (m - 1) + days_in_month y m"
    using chain w
    by (cases rule: month_cases)
       (auto simp add: month_start_def days_in_month_def split: if_splits)
  then show "DayFromYear y + month_start ?L (m - 1) \<le> Day t"
    and "Day t < DayFromYear y + month_start ?L (m - 1) + days_in_month y m"
    by (simp_all add: D)
qed

text \<open>A calendar month is the interval from its first to its last millisecond.\<close>

lemma in_month_iff:
  assumes m: "1 \<le> m" "m \<le> 12"
  shows "in_month y m t \<longleftrightarrow>
         civil y m 1 0 0 0 0 \<le> t \<and> t \<le> civil y m (days_in_month y m) 23 59 59 999"
proof -
  let ?D0 = "DayFromYear y + month_start (if is_leap y then 1 else 0) (m - 1)"
  have iv: "civil y m 1 0 0 0 0 \<le> t \<and> t \<le> civil y m (days_in_month y m) 23 59 59 999
        \<longleftrightarrow> ?D0 \<le> Day t \<and> Day t < ?D0 + days_in_month y m"
    using Day_bounds_iff [of ?D0 t "?D0 + days_in_month y m"]
    by (simp add: civil_def algebra_simps)
  show ?thesis
  proof
    assume "in_month y m t"
    from day_of_in_month [OF m this] iv
    show "civil y m 1 0 0 0 0 \<le> t \<and> t \<le> civil y m (days_in_month y m) 23 59 59 999"
      by simp
  next
    assume "civil y m 1 0 0 0 0 \<le> t \<and> t \<le> civil y m (days_in_month y m) 23 59 59 999"
    with iv have D: "?D0 \<le> Day t" "Day t < ?D0 + days_in_month y m" by simp_all
    define d where "d = Day t - ?D0 + 1"
    have d: "1 \<le> d" "d \<le> days_in_month y m" using D by (simp_all add: d_def)
    have t: "t = (?D0 + (d - 1)) * msPerDay + t mod msPerDay"
      using time_split [of t] by (simp add: d_def)
    from fields_of_instant(1,2) [OF m d _ _ t] time_in_day [of t]
    show "in_month y m t" by (simp add: in_month_def)
  qed
qed

lemma DayFromYear_first: "DayFromYear (- 271820) = - 99999744"
  by (simp add: DayFromYear_def)

lemma DayFromYear_last: "DayFromYear 275760 = 99999744"
  by (simp add: DayFromYear_def)

text \<open>No instant of a plain year is clipped.\<close>

lemma TimeClip_plain_year:
  assumes y: "plain_year y"
    and D: "DayFromYear y \<le> D" "D < DayFromYear (y + 1)"
    and r: "0 \<le> r" "r < msPerDay"
  shows "TimeClip (D * msPerDay + r) = Some (D * msPerDay + r)"
proof -
  from y have "- 271820 \<le> y" "y + 1 \<le> 275760" by (simp_all add: plain_year_def)
  then have "DayFromYear (- 271820) \<le> DayFromYear y" "DayFromYear (y + 1) \<le> DayFromYear 275760"
    by (simp_all only: DayFromYear_mono)
  with D have "- 99999744 \<le> D" "D < 99999744"
    by (simp_all only: DayFromYear_first DayFromYear_last)
  with r have "- 8640000000000000 \<le> D * 86400000 + r" "D * 86400000 + r \<le> 8640000000000000"
    by (simp_all add: msPerDay_def)
  then show ?thesis by (simp add: TimeClip_def msPerDay_def abs_le_iff)
qed

lemma newDate_civil:
  assumes y: "plain_year y" and m: "1 \<le> m" "m \<le> 12"
    and d: "1 \<le> d" "d \<le> days_in_month y m"
    and r: "0 \<le> MakeTime h mi s 0" "MakeTime h mi s 0 < msPerDay"
  shows "newDate (Some y) (Some (m - 1)) d h mi s = Some (civil y m d h mi s 0)"
proof -
  let ?L = "if is_leap y then 1 else 0 :: int"
  have idx: "(m - 1) div 12 = 0" "(m - 1) mod 12 = m - 1"
    using m by simp_all
  have day: "MakeDay y (m - 1) d = DayFromYear y + month_start ?L (m - 1) + (d - 1)"
    by (simp add: MakeDay_def Let_def idx DaysInYear_leap)
  have clip: "TimeClip (MakeDay y (m - 1) d * msPerDay + MakeTime h mi s 0)
        = Some (MakeDay y (m - 1) d * msPerDay + MakeTime h mi s 0)"
    unfolding day by (rule TimeClip_plain_year [OF y day_in_year_bounds [OF m d] r])
  from y have yr: "(if 0 \<le> y \<and> y \<le> 99 then 1900 + y else y) = y"
    by (simp add: plain_year_def)
  have "newDate (Some y) (Some (m - 1)) d h mi s
        = TimeClip (MakeDay y (m - 1) d * msPerDay + MakeTime h mi s 0)"
    by (simp add: newDate_def Let_def yr MakeDate_def)
  also note clip
  finally show ?thesis
    by (simp add: day civil_def MakeTime_def)
qed

text \<open>Day 0 of the month after month \<open>m\<close> is the last day of month \<open>m\<close>.\<close>

lemma MakeDay_zero:
  assumes m: "1 \<le> m" "m \<le> 12"
  shows "MakeDay y m 0 =
         DayFromYear y + month_start (if is_leap y then 1 else 0) (m - 1) + (days_in_month y m - 1)"
proof (cases "m = 12")
  case True
  then show ?thesis
    using year_end [of y] by (simp add: MakeDay_def Let_def month_start_def)
next
  case False
  with m have m': "1 \<le> m" "m \<le> 11" by simp_all
  then have idx: "m div 12 = 0" "m mod 12 = m" by simp_all
  have "MakeDay y m 0 = DayFromYear y + month_start (if is_leap y then 1 else 0) m - 1"
    by (simp add: MakeDay_def Let_def idx DaysInYear_leap)
  then show ?thesis
    by (simp only: month_start_next [OF m', of y])
qed

lemma newDate_last_day:
  assumes y: "plain_year y" and m: "1 \<le> m" "m \<le> 12"
    and r: "0 \<le> MakeTime h mi s 0" "MakeTime h mi s 0 < msPerDay"
  shows "newDate (Some y) (Some m) 0 h mi s = Some (civil y m (days_in_month y m) h mi s 0)"
proof -
  let ?L = "if is_leap y then 1 else 0 :: int"
  have d: "1 \<le> days_in_month y m" "days_in_month y m \<le> days_in_month y m"
    using days_in_month_bounds [of y m] by simp_all
  have clip: "TimeClip (MakeDay y m 0 * msPerDay + MakeTime h mi s 0)
        = Some (MakeDay y m 0 * msPerDay + MakeTime h mi s 0)"
    unfolding MakeDay_zero [OF m]
    by (rule TimeClip_plain_year [OF y day_in_year_bounds [OF m d] r])
  from y have yr: "(if 0 \<le> y \<and> y \<le> 99 then 1900 + y else y) = y"
    by (simp add: plain_year_def)
  have "newDate (Some y) (Some m) 0 h mi s
        = TimeClip (MakeDay y m 0 * msPerDay + MakeTime h mi s 0)"
    by (simp add: newDate_def Let_def yr MakeDate_def)
  also note clip
  finally show ?thesis
    by (simp add: MakeDay_zero [OF m] civil_def MakeTime_def)
qed

lemma in_year_iff:
  "YearFromTime t = y \<longleftrightarrow>
     civil y 1 1 0 0 0 0 \<le> t \<and> t \<le> civil y 12 31 23 59 59 999"
proof -
  have s: "civil y 1 1 0 0 0 0 = DayFromYear y * msPerDay"
    by (simp add: civil_def month_start_def)
  have "DayFromYear (y + 1) - 1 = DayFromYear y + month_start (if is_leap y then 1 else 0) 11 + 30"
    by (simp add: year_end days_in_month_def)
  then have e: "civil y 12 31 23 59 59 999 = (DayFromYear (y + 1) - 1) * msPerDay + 86399999"
    by (simp add: civil_def)
  have iv: "civil y 1 1 0 0 0 0 \<le> t \<and> t \<le> civil y 12 31 23 59 59 999
        \<longleftrightarrow> DayFromYear y \<le> Day t \<and> Day t < DayFromYear (y + 1)"
    unfolding s e by (rule Day_bounds_iff)
  show ?thesis
  proof
    assume "YearFromTime t = y"
    with year_from_day_bounds [of "Day t"] iv
    show "civil y 1 1 0 0 0 0 \<le> t \<and> t \<le> civil y 12 31 23 59 59 999"
      by (simp add: YearFromTime_def)
  next
    assume "civil y 1 1 0 0 0 0 \<le> t \<and> t \<le> civil y 12 31 23 59 59 999"
    with iv have "DayFromYear y \<le> Day t" "Day t < DayFromYear (y + 1)" by simp_all
    then show "YearFromTime t = y"
      unfolding YearFromTime_def by (rule year_from_day_unique)
  qed
qed

lemma end_of_day_in_day: "0 \<le> MakeTime 23 59 59 0" "MakeTime 23 59 59 0 < msPerDay"
  by (simp_all add: MakeTime_def msPerDay_def)

lemma start_of_day_in_day: "0 \<le> MakeTime 0 0 0 0" "MakeTime 0 0 0 0 < msPerDay"
  by (simp_all add: MakeTime_def msPerDay_def)

lemma yearly_interval:
  assumes "plain_year year"
  shows "period_resolver ''yearly'' (Some year) month =
           (Some (civil year 1 1 0 0 0 0), Some (civil year 12 31 23 59 59 0))"
  using newDate_civil [OF assms, of 1 1 0 0 0, OF _ _ _ _ start_of_day_in_day]
    newDate_civil [OF assms, of 12 31 23 59 59, OF _ _ _ _ end_of_day_in_day]
  by (simp add: period_resolver_def days_in_month_def)

lemma monthly_interval:
  assumes "plain_year year" "1 \<le> month" "month \<le> 12"
    and "periodType \<noteq> ''yearly''" "periodType \<noteq> ''quarterly''"
  shows "period_resolver periodType (Some year) (Some month) =
           (Some (civil year month 1 0 0 0 0),
            Some (civil year month (days_in_month year month) 23 59 59 0))"
  using newDate_civil [OF assms(1-3), of 1 0 0 0, OF _ _ start_of_day_in_day]
    newDate_last_day [OF assms(1-3) end_of_day_in_day]
    days_in_month_bounds [of year month] assms(4,5)
  by (simp add: period_resolver_def)

lemma quarter_of_month:
  assumes "1 \<le> month" "month \<le> 12"
  shows "Math_ceil_div month 3 = (month + 2) div 3"
    and "1 \<le> (month + 2) div 3" and "(month + 2) div 3 \<le> 4"
  using assms by (cases rule: month_cases; simp add: Math_ceil_div_def)+

lemma quarterly_interval:
  assumes "plain_year year" "1 \<le> month" "month \<le> 12"
  shows "period_resolver ''quarterly'' (Some year) (Some month) =
           (Some (civil year ((Math_ceil_div month 3 - 1) * 3 + 1) 1 0 0 0 0),
            Some (civil year (Math_ceil_div month 3 * 3)
                    (days_in_month year (Math_ceil_div month 3 * 3)) 23 59 59 0))"
proof -
  define q where "q = Math_ceil_div month 3"
  have q: "1 \<le> q" "q \<le> 4"
    using quarter_of_month [OF assms(2,3)] by (simp_all add: q_def)
  then have a: "1 \<le> (q - 1) * 3 + 1" "(q - 1) * 3 + 1 \<le> 12"
    and b: "1 \<le> q * 3" "q * 3 \<le> 12" by simp_all
  have "newDate (Some year) (Some ((q - 1) * 3)) 1 0 0 0
        = Some (civil year ((q - 1) * 3 + 1) 1 0 0 0 0)"
    using newDate_civil [OF assms(1) a, of 1 0 0 0, OF _ _ start_of_day_in_day]
      days_in_month_bounds [of year "(q - 1) * 3 + 1"] by simp
  moreover have "newDate (Some year) (Some (q * 3)) 0 23 59 59
        = Some (civil year (q * 3) (days_in_month year (q * 3)) 23 59 59 0)"
    by (rule newDate_last_day [OF assms(1) b end_of_day_in_day])
  ultimately show ?thesis
    by (simp add: period_resolver_def Let_def q_def)
qed

text \<open>Three consecutive months, from the first instant to the last second.\<close>

lemma three_months_length:
  assumes "a = 1 \<or> a = 4 \<or> a = 7 \<or> a = 10"
  shows "civil y (a + 2) (days_in_month y (a + 2)) 23 59 59 0 + 1000 - civil y a 1 0 0 0 0
         = (days_in_month y a + days_in_month y (a + 1) + days_in_month y (a + 2)) * msPerDay"
  using assms
  by (elim disjE) (simp_all add: civil_def month_start_def days_in_month_def msPerDay_def)

lemma civil_mono_in_month:
  assumes "1 \<le> d"
  shows "civil y m 1 0 0 0 0 \<le> civil y m d 23 59 59 0"
  using assms by (simp add: civil_def msPerDay_def)

lemma civil_ms: "civil y m d h mi s ms = civil y m d h mi s 0 + ms"
  by (simp add: civil_def)

section \<open>The history loop\<close>

lemma MonthFromTime_range: "0 \<le> MonthFromTime t \<and> MonthFromTime t \<le> 11"
  by (simp add: MonthFromTime_def Let_def)

lemma MakeDay_carry: "MakeDay y m d = MakeDay (y + m div 12) (m mod 12) d"
  by (simp add: MakeDay_def Let_def)

lemma newDate_carry:
  assumes "\<not> (0 \<le> y \<and> y \<le> 99)" "\<not> (0 \<le> y + m div 12 \<and> y + m div 12 \<le> 99)"
  shows "newDate (Some y) (Some m) d h mi s = newDate (Some (y + m div 12)) (Some (m mod 12)) d h mi s"
proof -
  have "(if 0 \<le> y \<and> y \<le> 99 then 1900 + y else y) = y"
    "(if 0 \<le> y + m div 12 \<and> y + m div 12 \<le> 99 then 1900 + (y + m div 12) else y + m div 12)
      = y + m div 12"
    using assms by simp_all
  then show ?thesis
    unfolding newDate_def Let_def option.case prod.case
    by (simp only: MakeDay_carry [of y m d])
qed

text \<open>The month that is \<open>i\<close> months before the month of \<open>now\<close>.\<close>

lemma month_summary_monthly:
  assumes now: "1970 \<le> YearFromTime now" "YearFromTime now \<le> 275759"
    and i: "0 \<le> i" "i \<le> 23"
    and k: "k = YearFromTime now * 12 + MonthFromTime now - i"
  shows "month_summary now (Some table_rows) i = Some (month_entry table_rows (k div 12) (k mod 12 + 1))"
    and "plain_year (k div 12)"
proof -
  define Y where "Y = YearFromTime now"
  define M where "M = MonthFromTime now"
  define y where "y = Y + (M - i) div 12"
  define mn where "mn = (M - i) mod 12"
  have M: "0 \<le> M" "M \<le> 11" using MonthFromTime_range [of now] by (simp_all add: M_def)
  have mn: "0 \<le> mn" "mn \<le> 11" by (simp_all add: mn_def)
  have "- 2 \<le> (M - i) div 12" "(M - i) div 12 \<le> 0"
    using M i div_lower [of 12 "M - i"] div_upper [of 12 "M - i"] by simp_all
  then have y: "1968 \<le> y" "y \<le> 275759" using now by (simp_all add: y_def Y_def)
  then have plain: "plain_year y" by (simp add: plain_year_def)
  have kdiv: "k div 12 = y" and kmod: "k mod 12 = mn"
    unfolding k y_def mn_def Y_def M_def
    using div_mult_self4 [of 12 "YearFromTime now" "MonthFromTime now - i"]
      mod_mult_self4 [of 12 "YearFromTime now" "MonthFromTime now - i"]
    by (simp_all add: algebra_simps)
  have m1: "1 \<le> mn + 1" "mn + 1 \<le> 12" using mn by simp_all
  have start: "newDate (Some y) (Some mn) 1 0 0 0 = Some (civil y (mn + 1) 1 0 0 0 0)"
    using newDate_civil [OF plain m1, of 1 0 0 0, OF _ _ start_of_day_in_day]
      days_in_month_bounds [of y "mn + 1"] by simp
  have target: "newDate (Some Y) (Some (M - i)) 1 0 0 0 = Some (civil y (mn + 1) 1 0 0 0 0)"
  proof -
    have "newDate (Some Y) (Some (M - i)) 1 0 0 0 = newDate (Some y) (Some mn) 1 0 0 0"
      unfolding y_def mn_def
      by (rule newDate_carry) (use now y in \<open>simp_all add: Y_def y_def\<close>)
    with start show ?thesis by simp
  qed
  have fields: "YearFromTime (civil y (mn + 1) 1 0 0 0 0) = y"
    "MonthFromTime (civil y (mn + 1) 1 0 0 0 0) = mn"
    using fields_of_instant(1,2) [OF m1, of 1 y 0 "civil y (mn + 1) 1 0 0 0 0"]
      days_in_month_bounds [of y "mn + 1"]
    by (simp_all add: civil_def msPerDay_def)
  have "newDate (Some y) (Some (mn + 1)) 0 23 59 59
        = Some (civil y (mn + 1) (days_in_month y (mn + 1)) 23 59 59 0)"
    by (rule newDate_last_day [OF plain m1 end_of_day_in_day])
  with start target fields
  have ms: "month_summary now (Some table_rows) i =
      Some \<lparr>entryPeriodStart = civil y (mn + 1) 1 0 0 0 0,
            entryPeriodEnd = civil y (mn + 1) (days_in_month y (mn + 1)) 23 59 59 0,
            entryTotals = aggregate (period_cards (civil y (mn + 1) 1 0 0 0 0)
              (civil y (mn + 1) (days_in_month y (mn + 1)) 23 59 59 0) table_rows)\<rparr>"
    by (simp add: month_summary_def Let_def getFullYear_def getMonth_def Y_def [symmetric]
          M_def [symmetric])
  from ms show "month_summary now (Some table_rows) i
      = Some (month_entry table_rows (k div 12) (k mod 12 + 1))"
    by (simp add: kdiv kmod month_entry_def Let_def)
  from plain show "plain_year (k div 12)" by (simp add: kdiv)
qed

lemma history_loop_map:
  assumes "\<And>j. i \<le> j \<Longrightarrow> j < n \<Longrightarrow> month_summary now (db j) j = Some (f j)"
  shows "history_loop now db (Some n) i acc = Some (acc @ map f [i..n - 1])"
  using assms
proof (induction "nat (n - i)" arbitrary: i acc)
  case 0
  then have "\<not> i < n" by simp
  then show ?case
    by (subst history_loop.simps) simp
next
  case (Suc k)
  then have lt: "i < n" by simp
  have step: "history_loop now db (Some n) (i + 1) (acc @ [f i])
        = Some ((acc @ [f i]) @ map f [i + 1..n - 1])"
    by (rule Suc.hyps(1)) (use Suc.hyps(2) Suc.prems in simp_all)
  have "[i..n - 1] = i # [i + 1..n - 1]"
    using lt by (simp add: upto_rec1)
  with step Suc.prems [of i] lt show ?case
    by (subst history_loop.simps) simp
qed

lemma history_loop_NaN: "history_loop now db None i acc = Some acc"
  by (subst history_loop.simps) simp

lemma history_loop_nonpositive: "n \<le> i \<Longrightarrow> history_loop now db (Some n) i acc = Some acc"
  by (subst history_loop.simps) simp

text \<open>The second after the last second of a month is the first instant of the next month.\<close>

lemma next_month_start:
  assumes m: "1 \<le> m" "m \<le> 12" and n: "1 \<le> m'" "m' \<le> 12"
    and idx: "month_index y' m' = month_index y m + 1"
  shows "civil y m (days_in_month y m) 23 59 59 0 + 1000 = civil y' m' 1 0 0 0 0"
proof (cases "m = 12")
  case True
  with idx n have "12 * y' + m' = 13 + 12 * y" by (simp add: month_index_def)
  with n have "y' < y + 2" "y < y'" by linarith+
  then have "y' = y + 1" by simp
  moreover from this \<open>12 * y' + m' = 13 + 12 * y\<close> have "m' = 1" by simp
  ultimately have "y' = y + 1" "m' = 1" .
  then show ?thesis
    using True year_end [of y] by (simp add: civil_def month_start_def msPerDay_def algebra_simps)
next
  case False
  from idx have "12 * y' + m' = 12 * y + m + 1" by (simp add: month_index_def)
  with False m n have "y' < y + 1" "y - 1 < y'" by linarith+
  then have "y' = y" by simp
  moreover from this \<open>12 * y' + m' = 12 * y + m + 1\<close> have "m' = m + 1" by simp
  ultimately have "y' = y" "m' = m + 1" .
  moreover from False m have "1 \<le> m" "m \<le> 11" by simp_all
  note month_start_next [OF this, of y]
  ultimately show ?thesis
    by (simp add: civil_def msPerDay_def algebra_simps)
qed

lemma month_of_index:
  "1 \<le> k mod 12 + 1" "k mod 12 + 1 \<le> 12" "month_index (k div 12) (k mod 12 + 1) = k"
  for k :: int
  by (simp_all add: month_index_def)

text \<open>The entries that the History Builder returns.\<close>

lemma history_builder_map:
  assumes now: "1970 \<le> YearFromTime now" "YearFromTime now \<le> 275759"
    and n: "n \<le> 24"
  shows "history_builder now (available tables) (Some n) =
     Some (map (\<lambda>j. month_entry (tables j)
                  ((YearFromTime now * 12 + MonthFromTime now - j) div 12)
                  ((YearFromTime now * 12 + MonthFromTime now - j) mod 12 + 1)) [0..n - 1])"
  unfolding history_builder_def
  by (subst history_loop_map [where f = "\<lambda>j. month_entry (tables j)
                  ((YearFromTime now * 12 + MonthFromTime now - j) div 12)
                  ((YearFromTime now * 12 + MonthFromTime now - j) mod 12 + 1)"])
     (use n in \<open>simp_all add: available_def month_summary_monthly(1) [OF now]\<close>)

section \<open>Requests\<close>

lemma providedKey_exact: "providedKey authHeader = Some k \<longleftrightarrow> authHeader = Some (''Bearer '' @ k)"
proof (cases authHeader)
  case None
  then show ?thesis by (simp add: providedKey_def)
next
  case (Some h)
  have "take 7 h = ''Bearer '' \<and> drop 7 h = k \<longleftrightarrow> h = ''Bearer '' @ k"
  proof
    assume "take 7 h = ''Bearer '' \<and> drop 7 h = k"
    then have "take 7 h @ drop 7 h = ''Bearer '' @ k" by simp
    then show "h = ''Bearer '' @ k" by (simp only: append_take_drop_id)
  next
    assume "h = ''Bearer '' @ k"
    then show "take 7 h = ''Bearer '' \<and> drop 7 h = k" by simp
  qed
  with Some show ?thesis by (auto simp: providedKey_def)
qed

lemma unauthorized_iff:
  "unauthorized apiKey authHeader \<longleftrightarrow>
     (\<exists>k. apiKey = Some k \<and> k \<noteq> [] \<and> authHeader \<noteq> Some (''Bearer '' @ k))"
  by (cases apiKey) (simp_all add: unauthorized_def providedKey_exact)

lemma history_builder_total:
  assumes now: "1970 \<le> YearFromTime now" "YearFromTime now \<le> 275759"
  shows "\<exists>summaries. history_builder now (available tables) (months_count months) = Some summaries"
proof (cases "months_count months")
  case None
  then show ?thesis by (simp add: history_builder_def history_loop_NaN)
next
  case (Some n)
  then have "n \<le> 24" by (auto simp: months_count_def)
  from history_builder_map [OF now this] Some show ?thesis by simp
qed

lemma status_report_GET:
  "status (report_GET apiKey authHeader query now db) = 200
   \<or> status (report_GET apiKey authHeader query now db) = 401
   \<or> status (report_GET apiKey authHeader query now db) = 500"
  by (simp add: report_GET_def report_body_def Let_def split: prod.splits option.splits)

lemma status_history_GET:
  "status (history_GET apiKey authHeader months now db) = 200
   \<or> status (history_GET apiKey authHeader months now db) = 401
   \<or> status (history_GET apiKey authHeader months now db) = 500"
  by (simp add: history_GET_def history_body_def split: option.splits)

lemma newDate_NaN: "newDate None m d h mi s = None" "newDate y None d h mi s = None"
  by (simp_all add: newDate_def split: option.splits)

lemma period_resolver_NaN_year: "period_resolver periodType None month = (None, None)"
  by (simp add: period_resolver_def newDate_NaN Let_def)

lemma period_resolver_NaN_month:
  "periodType \<noteq> ''yearly'' \<Longrightarrow> period_resolver periodType year None = (None, None)"
  by (simp add: period_resolver_def newDate_NaN Let_def)

lemma period_resolver_yearly_month:
  "period_resolver ''yearly'' year month = period_resolver ''yearly'' year month'"
  by (simp add: period_resolver_def)

section \<open>Bounds of the completion rate\<close>

lemma rounding_errors_sum: "200 * (2::rat) powi (- 53) \<le> 2 powi (- 45)"
proof -
  have "- 45 = 8 + (- 53 :: int)" by simp
  then have "(2::rat) powi (- 45) = 2 powi (8 + (- 53))" by (rule arg_cong)
  also have "\<dots> = 2 powi 8 * 2 powi (- 53)" by (simp only: two_powi_add)
  also have "\<dots> = 256 * 2 powi (- 53)" by simp
  finally show ?thesis using two_powi_pos [of "- 53"] by simp
qed

lemma completion_rate_bounds:
  assumes ti: "0 < items" and tc: "0 \<le> completed"
  shows "0 \<le> completion_rate items completed"
    and "completed \<le> items \<Longrightarrow> completion_rate items completed \<le> 100"
    and "completed \<le> items \<Longrightarrow>
         \<bar>of_int (completion_rate items completed)
            - 100 * of_int completed / of_int items\<bar> \<le> 1 / 2 + (2::rat) powi (- 45)"
proof -
  define x :: rat where "x = of_int completed / of_int items"
  define q where "q = round_to_double x"
  define p where "p = round_to_double (q * 100)"
  have rate: "completion_rate items completed = Math_round p"
    using ti by (simp add: completion_rate_def number_times_def number_divide_def p_def q_def x_def)
  from ti tc have x0: "0 \<le> x" by (simp add: x_def)
  then have q0: "0 \<le> q" unfolding q_def by (rule round_to_double_nonneg)
  then have "0 \<le> q * 100" by simp
  then have p0: "0 \<le> p" unfolding p_def by (rule round_to_double_nonneg)
  then have "0 \<le> \<lfloor>p + 1 / 2\<rfloor>" by simp
  then show "0 \<le> completion_rate items completed"
    by (simp only: rate Math_round_def)
  {
    assume le: "completed \<le> items"
    with ti have x1: "x \<le> 1" by (simp add: x_def)
    have "q \<le> of_int 1" unfolding q_def
      by (rule round_to_double_le_numeral) (use x1 in simp_all)
    then have q1: "q \<le> 1" by simp
    then have "q * 100 \<le> of_int 100" by simp
    then have "p \<le> of_int 100" unfolding p_def
      by (rule round_to_double_le_numeral) simp
    then have p100: "p \<le> 100" by simp
    then have "p + 1 / 2 < 101" by simp
    then have "\<lfloor>p + 1 / 2\<rfloor> < 101" by (simp add: floor_less_iff)
    then show "completion_rate items completed \<le> 100"
      by (simp add: rate Math_round_def)
    have e: "0 < (2::rat) powi (- 53)" by (rule two_powi_pos)
    have "\<bar>q - x\<bar> \<le> x * 2 powi (- 53)"
      unfolding q_def by (rule round_to_double_error_nonneg [OF x0])
    also have "\<dots> \<le> 1 * 2 powi (- 53)"
      using x1 e by (simp only: mult_right_mono less_imp_le)
    finally have eq: "\<bar>q - x\<bar> \<le> 2 powi (- 53)" by simp
    have "\<bar>p - q * 100\<bar> \<le> q * 100 * 2 powi (- 53)"
      unfolding p_def by (rule round_to_double_error_nonneg) (use q0 in simp)
    also have "\<dots> \<le> 100 * 2 powi (- 53)"
      using q1 e by (simp add: mult_right_mono)
    finally have ep: "\<bar>p - q * 100\<bar> \<le> 100 * 2 powi (- 53)" .
    from eq have eq': "\<bar>q * 100 - 100 * x\<bar> \<le> 100 * 2 powi (- 53)" by linarith
    have "\<bar>of_int (Math_round p) - 100 * x\<bar> \<le> 1 / 2 + 200 * 2 powi (- 53)"
      using Math_round_error [of p] ep eq' by linarith
    also have "\<dots> \<le> 1 / 2 + 2 powi (- 45)"
      using rounding_errors_sum by simp
    finally show "\<bar>of_int (completion_rate items completed)
            - 100 * of_int completed / of_int items\<bar> \<le> 1 / 2 + (2::rat) powi (- 45)"
      by (simp add: rate x_def)
  }
qed

lemma report_GET_Json200:
  assumes "report_GET apiKey authHeader query now db = Json200 r"
  obtains all_rows completed_rows where "allCards_query db = Some all_rows"
    and "allCompleted_query db = Some completed_rows"
    and "totalItems r = int (length all_rows)"
    and "totalCompleted r = int (length (filter isCompleted completed_rows))"
    and "completionRate r = completion_rate (int (length all_rows))
           (int (length (filter isCompleted completed_rows)))"
  using assms
  by (auto simp: report_GET_def report_body_def Let_def
        split: if_splits prod.splits option.splits)

lemma report_GET_status_200:
  assumes "status (report_GET apiKey authHeader query now db) = 200"
  obtains r where "report_GET apiKey authHeader query now db = Json200 r"
  using assms
  by (auto simp: report_GET_def report_body_def Let_def
        split: if_splits prod.splits option.splits)

section \<open>Claims about the aggregator\<close>

text \<open>
  C2, as amended. \<open>expenseCategories\<close> groups all period rows by category, where only a
  \<open>null\<close> category is replaced by "Uncategorized" (an empty string is a category name of
  its own): there is one entry per distinct name, in the order of first occurrence, whose
  amount is the sum of the estimated costs of the rows of that name, added in the order
  of the rows, and whose count is their number. The counts add up to the number of
  period rows. The amounts add up to \<open>totalExpenses\<close>, exactly and as JavaScript adds
  them, when the costs are whole amounts whose magnitudes add up to at most \<open>2^53\<close>, so
  that no addition rounds.
\<close>

theorem expenseCategories_groups:
  "expenseCategories (aggregate rows) =
     map (group_entry rows) (first_occurrences (map category_or_default rows))
   \<and> sum_list (map count (expenseCategories (aggregate rows))) = length rows
   \<and> (whole_amounts rows \<longrightarrow>
        sum_list (map amount (expenseCategories (aggregate rows)))
          = totalExpenses (aggregate rows)
        \<and> number_sum (map amount (expenseCategories (aggregate rows)))
          = totalExpenses (aggregate rows))"
  by (simp add: aggregate_def Let_def build_category_map_groups [symmetric]
        sum_amount_entries number_sum_amount_entries sum_count_entries)

theorem expenseCategories_groups_witness:
  "whole_amounts
     [\<lparr>category = Some ''Land'', estimatedCost = Some 100, isCompleted = False, createdAt = 0\<rparr>,
      \<lparr>category = None, estimatedCost = Some 50, isCompleted = True, createdAt = 1\<rparr>,
      \<lparr>category = Some ''Land'', estimatedCost = None, isCompleted = True, createdAt = 2\<rparr>]
   \<and> sum_list (map amount (expenseCategories (aggregate
     [\<lparr>category = Some ''Land'', estimatedCost = Some 100, isCompleted = False, createdAt = 0\<rparr>,
      \<lparr>category = None, estimatedCost = Some 50, isCompleted = True, createdAt = 1\<rparr>,
      \<lparr>category = Some ''Land'', estimatedCost = None, isCompleted = True, createdAt = 2\<rparr>])))
     = totalExpenses (aggregate
     [\<lparr>category = Some ''Land'', estimatedCost = Some 100, isCompleted = False, createdAt = 0\<rparr>,
      \<lparr>category = None, estimatedCost = Some 50, isCompleted = True, createdAt = 1\<rparr>,
      \<lparr>category = Some ''Land'', estimatedCost = None, isCompleted = True, createdAt = 2\<rparr>])
   \<and> map name (expenseCategories (aggregate
     [\<lparr>category = Some ''Land'', estimatedCost = Some 100, isCompleted = False, createdAt = 0\<rparr>,
      \<lparr>category = None, estimatedCost = Some 50, isCompleted = True, createdAt = 1\<rparr>,
      \<lparr>category = Some ''Land'', estimatedCost = None, isCompleted = True, createdAt = 2\<rparr>]))
     = [''Land'', ''Uncategorized'']"
proof -
  let ?rows = "[\<lparr>category = Some ''Land'', estimatedCost = Some 100, isCompleted = False, createdAt = 0\<rparr>,
      \<lparr>category = None, estimatedCost = Some 50, isCompleted = True, createdAt = 1\<rparr>,
      \<lparr>category = Some ''Land'', estimatedCost = None, isCompleted = True, createdAt = 2\<rparr>]"
  have w: "whole_amounts ?rows" by code_simp
  have n: "map name (map (group_entry ?rows) (first_occurrences (map category_or_default ?rows)))
      = [''Land'', ''Uncategorized'']"
    by code_simp
  from expenseCategories_groups [of ?rows] w
  have s: "sum_list (map amount (expenseCategories (aggregate ?rows)))
      = totalExpenses (aggregate ?rows)"
    and e: "expenseCategories (aggregate ?rows)
      = map (group_entry ?rows) (first_occurrences (map category_or_default ?rows))"
    by blast+
  from n have "map name (expenseCategories (aggregate ?rows)) = [''Land'', ''Uncategorized'']"
    by (simp only: e)
  with w s show ?thesis by blast
qed

text \<open>
  C2 as stated fails: a row whose category is the empty string is reported under the
  empty name, not under "Uncategorized".
\<close>

theorem expenseCategories_empty_name:
  "map name (expenseCategories (aggregate
      [\<lparr>category = Some '''', estimatedCost = Some 10, isCompleted = False, createdAt = 0\<rparr>]))
   = ['''']
   \<and> '''' \<noteq> ''Uncategorized''"
  by (simp add: aggregate_def Let_def build_category_map_def add_card_def category_entries_def
        category_or_default_def cost_or_zero_def)

text \<open>
  Nor do the amounts add up to \<open>totalExpenses\<close> whatever the costs are: an addition
  that rounds in the order of the rows need not round by category. With the costs \<open>2^53\<close>,
  1 and 1 in the categories A, B and B, \<open>totalExpenses\<close> is \<open>2^53\<close> (adding 1 to
  \<open>2^53\<close> leaves it), and the amounts are \<open>2^53\<close> and 2.
\<close>

lemma expenseCategories_rounded_sum:
  "totalExpenses (aggregate
      [\<lparr>category = Some ''A'', estimatedCost = Some (2 ^ 53), isCompleted = False, createdAt = 0\<rparr>,
       \<lparr>category = Some ''B'', estimatedCost = Some 1, isCompleted = False, createdAt = 1\<rparr>,
       \<lparr>category = Some ''B'', estimatedCost = Some 1, isCompleted = False, createdAt = 2\<rparr>])
     = 2 ^ 53
   \<and> map amount (expenseCategories (aggregate
      [\<lparr>category = Some ''A'', estimatedCost = Some (2 ^ 53), isCompleted = False, createdAt = 0\<rparr>,
       \<lparr>category = Some ''B'', estimatedCost = Some 1, isCompleted = False, createdAt = 1\<rparr>,
       \<lparr>category = Some ''B'', estimatedCost = Some 1, isCompleted = False, createdAt = 2\<rparr>]))
     = [2 ^ 53, 2]"
  by code_simp

text \<open>
  C9. When every estimated cost that is present is non-negative, the value of the
  completed rows is at most \<open>totalExpenses\<close>, so \<open>netProfit\<close> and \<open>netCashFlow\<close> are
  never positive.
\<close>

theorem netProfit_never_positive:
  assumes "\<forall>crd \<in> set rows. \<forall>c. estimatedCost crd = Some c \<longrightarrow> 0 \<le> c"
  shows "sum_costs (filter isCompleted rows) \<le> totalExpenses (aggregate rows)
         \<and> totalRevenue (aggregate rows) \<le> totalExpenses (aggregate rows)
         \<and> netProfit (aggregate rows) \<le> 0
         \<and> netCashFlow (aggregate rows) \<le> 0"
proof -
  from assms have "\<forall>crd \<in> set rows. 0 \<le> cost_or_zero crd"
    by (auto simp: cost_or_zero_def split: option.splits)
  from sum_costs_filter_le [OF this, of isCompleted]
  show ?thesis by (simp add: aggregate_def Let_def number_minus_nonpos)
qed

theorem netProfit_never_positive_witness:
  "netProfit (aggregate
     [\<lparr>category = None, estimatedCost = Some 100, isCompleted = False, createdAt = 0\<rparr>,
      \<lparr>category = None, estimatedCost = Some 50, isCompleted = True, createdAt = 1\<rparr>]) \<le> 0
   \<and> totalRevenue (aggregate
     [\<lparr>category = None, estimatedCost = Some 100, isCompleted = False, createdAt = 0\<rparr>,
      \<lparr>category = None, estimatedCost = Some 50, isCompleted = True, createdAt = 1\<rparr>]) = 50"
proof -
  have h: "\<forall>crd \<in> set [\<lparr>category = None, estimatedCost = Some 100, isCompleted = False, createdAt = 0\<rparr>,
                  \<lparr>category = None, estimatedCost = Some 50, isCompleted = True, createdAt = 1\<rparr>].
      \<forall>c. estimatedCost crd = Some c \<longrightarrow> (0::rat) \<le> c"
    by simp
  have "totalRevenue (aggregate
     [\<lparr>category = None, estimatedCost = Some 100, isCompleted = False, createdAt = 0\<rparr>,
      \<lparr>category = None, estimatedCost = Some 50, isCompleted = True, createdAt = 1\<rparr>]) = 50"
    by code_simp
  with netProfit_never_positive [OF h] show ?thesis by blast
qed

text \<open>
  C10, as amended. \<open>revenueCategories\<close> groups the completed rows of the period as
  \<open>expenseCategories\<close> groups all of them. Its counts add up to \<open>periodCompletedCount\<close>,
  the number of completed rows of the period, and no category name occurs twice in
  \<open>revenueCategories\<close> or in \<open>expenseCategories\<close>. Its amounts add up to \<open>totalRevenue\<close>,
  exactly and as JavaScript adds them, when the costs of the completed rows are whole
  amounts whose magnitudes add up to at most \<open>2^53\<close>, so that no addition rounds.
\<close>

theorem revenueCategories_totals:
  "revenueCategories (aggregate rows) =
     map (group_entry (filter isCompleted rows))
       (first_occurrences (map category_or_default (filter isCompleted rows)))
   \<and> sum_list (map count (revenueCategories (aggregate rows))) = periodCompletedCount (aggregate rows)
   \<and> periodCompletedCount (aggregate rows) = length (filter isCompleted rows)
   \<and> distinct (map name (revenueCategories (aggregate rows)))
   \<and> distinct (map name (expenseCategories (aggregate rows)))
   \<and> (whole_amounts (filter isCompleted rows) \<longrightarrow>
        sum_list (map amount (revenueCategories (aggregate rows)))
          = totalRevenue (aggregate rows)
        \<and> number_sum (map amount (revenueCategories (aggregate rows)))
          = totalRevenue (aggregate rows))"
  by (simp add: aggregate_def Let_def build_category_map_groups [symmetric]
        sum_amount_entries number_sum_amount_entries sum_count_entries distinct_entry_names)

theorem revenueCategories_totals_witness:
  "whole_amounts (filter isCompleted
     [\<lparr>category = Some ''Land'', estimatedCost = Some 100, isCompleted = True, createdAt = 0\<rparr>,
      \<lparr>category = None, estimatedCost = Some 50, isCompleted = True, createdAt = 1\<rparr>,
      \<lparr>category = Some ''Land'', estimatedCost = Some 7, isCompleted = False, createdAt = 2\<rparr>])
   \<and> sum_list (map amount (revenueCategories (aggregate
     [\<lparr>category = Some ''Land'', estimatedCost = Some 100, isCompleted = True, createdAt = 0\<rparr>,
      \<lparr>category = None, estimatedCost = Some 50, isCompleted = True, createdAt = 1\<rparr>,
      \<lparr>category = Some ''Land'', estimatedCost = Some 7, isCompleted = False, createdAt = 2\<rparr>])))
     = totalRevenue (aggregate
     [\<lparr>category = Some ''Land'', estimatedCost = Some 100, isCompleted = True, createdAt = 0\<rparr>,
      \<lparr>category = None, estimatedCost = Some 50, isCompleted = True, createdAt = 1\<rparr>,
      \<lparr>category = Some ''Land'', estimatedCost = Some 7, isCompleted = False, createdAt = 2\<rparr>])
   \<and> totalRevenue (aggregate
     [\<lparr>category = Some ''Land'', estimatedCost = Some 100, isCompleted = True, createdAt = 0\<rparr>,
      \<lparr>category = None, estimatedCost = Some 50, isCompleted = True, createdAt = 1\<rparr>,
      \<lparr>category = Some ''Land'', estimatedCost = Some 7, isCompleted = False, createdAt = 2\<rparr>])
     = 150"
proof -
  let ?rows = "[\<lparr>category = Some ''Land'', estimatedCost = Some 100, isCompleted = True, createdAt = 0\<rparr>,
      \<lparr>category = None, estimatedCost = Some 50, isCompleted = True, createdAt = 1\<rparr>,
      \<lparr>category = Some ''Land'', estimatedCost = Some 7, isCompleted = False, createdAt = 2\<rparr>]"
  have w: "whole_amounts (filter isCompleted ?rows)" by code_simp
  have t: "totalRevenue (aggregate ?rows) = 150" by code_simp
  from revenueCategories_totals [of ?rows] w
  have "sum_list (map amount (revenueCategories (aggregate ?rows)))
      = totalRevenue (aggregate ?rows)"
    by blast
  with w t show ?thesis by blast
qed

text \<open>
  C10 as stated fails: the amounts of \<open>revenueCategories\<close> need not add up to
  \<open>totalRevenue\<close>. With three completed rows of the costs 0.1, 0.2 and 0.3 (the doubles
  nearest to them) in the categories A, B and B, \<open>totalRevenue\<close> is
  0.6000000000000001, the sum in the order of the rows, while the amounts 0.1 and 0.5
  add up to 0.6 in JavaScript, and to less than \<open>totalRevenue\<close> exactly.
\<close>

theorem revenueCategories_rounded_sum:
  "totalRevenue (aggregate
      [\<lparr>category = Some ''A'', estimatedCost = Some (round_to_double (1 / 10)),
         isCompleted = True, createdAt = 0\<rparr>,
       \<lparr>category = Some ''B'', estimatedCost = Some (round_to_double (1 / 5)),
         isCompleted = True, createdAt = 1\<rparr>,
       \<lparr>category = Some ''B'', estimatedCost = Some (round_to_double (3 / 10)),
         isCompleted = True, createdAt = 2\<rparr>])
     = 5404319552844596 / 9007199254740992
   \<and> number_sum (map amount (revenueCategories (aggregate
      [\<lparr>category = Some ''A'', estimatedCost = Some (round_to_double (1 / 10)),
         isCompleted = True, createdAt = 0\<rparr>,
       \<lparr>category = Some ''B'', estimatedCost = Some (round_to_double (1 / 5)),
         isCompleted = True, createdAt = 1\<rparr>,
       \<lparr>category = Some ''B'', estimatedCost = Some (round_to_double (3 / 10)),
         isCompleted = True, createdAt = 2\<rparr>])))
     = 5404319552844595 / 9007199254740992
   \<and> sum_list (map amount (revenueCategories (aggregate
      [\<lparr>category = Some ''A'', estimatedCost = Some (round_to_double (1 / 10)),
         isCompleted = True, createdAt = 0\<rparr>,
       \<lparr>category = Some ''B'', estimatedCost = Some (round_to_double (1 / 5)),
         isCompleted = True, createdAt = 1\<rparr>,
       \<lparr>category = Some ''B'', estimatedCost = Some (round_to_double (3 / 10)),
         isCompleted = True, createdAt = 2\<rparr>])))
     < 5404319552844596 / 9007199254740992"
proof -
  let ?rows = "[\<lparr>category = Some ''A'', estimatedCost = Some (round_to_double (1 / 10)),
         isCompleted = True, createdAt = 0\<rparr>,
       \<lparr>category = Some ''B'', estimatedCost = Some (round_to_double (1 / 5)),
         isCompleted = True, createdAt = 1\<rparr>,
       \<lparr>category = Some ''B'', estimatedCost = Some (round_to_double (3 / 10)),
         isCompleted = True, createdAt = 2\<rparr>]"
  have completed: "filter isCompleted ?rows = ?rows" by simp
  have total: "sum_costs ?rows = 5404319552844596 / 9007199254740992" by code_simp
  have amounts: "map amount (category_entries (build_category_map ?rows))
      = [3602879701896397 / 36028797018963968, 1 / 2]"
    by code_simp
  have js: "number_sum [3602879701896397 / 36028797018963968, 1 / 2]
      = 5404319552844595 / 9007199254740992"
    by code_simp
  have exact: "sum_list [3602879701896397 / 36028797018963968, 1 / 2 :: rat]
      < 5404319552844596 / 9007199254740992"
    by simp
  have "totalRevenue (aggregate ?rows) = sum_costs ?rows"
    "revenueCategories (aggregate ?rows) = category_entries (build_category_map ?rows)"
    by (simp_all only: aggregate_def Let_def FinanceSummary.simps completed)
  with total amounts js exact show ?thesis by (simp only:)
qed

text \<open>
  C1. For every list of period rows the aggregator gives: \<open>totalExpenses\<close> is the sum of
  \<open>estimatedCost\<close> (0 when absent) over all rows; the completed value, the sum over the
  rows with \<open>isCompleted\<close>, is both \<open>totalRevenue\<close> and \<open>cashInflow\<close>;
  \<open>netProfit = totalRevenue - totalExpenses\<close>; \<open>cashOutflow = totalExpenses\<close>; and
  \<open>netCashFlow = cashInflow - cashOutflow\<close>. The sums and the differences are those of
  JavaScript numbers, the sums added in the order of the rows; for whole amounts whose
  magnitudes add up to at most \<open>2^53\<close> they are the exact ones. For the two rows of the
  example (cost 100, not completed, created on 15 March 2024; cost 50, completed,
  created on 20 March 2024) the monthly report of March 2024 has \<open>totalExpenses = 150\<close>,
  \<open>totalRevenue = 50\<close>, \<open>netProfit = -100\<close> and the single expense category
  "Uncategorized" of amount 150 and count 2.
\<close>

theorem aggregator_totals:
  "totalExpenses (aggregate rows)
     = number_sum (map (\<lambda>crd. case estimatedCost crd of None \<Rightarrow> 0 | Some c \<Rightarrow> c) rows)
   \<and> totalRevenue (aggregate rows)
     = number_sum (map (\<lambda>crd. case estimatedCost crd of None \<Rightarrow> 0 | Some c \<Rightarrow> c)
         (filter isCompleted rows))
   \<and> netProfit (aggregate rows)
     = number_minus (totalRevenue (aggregate rows)) (totalExpenses (aggregate rows))
   \<and> cashInflow (aggregate rows) = totalRevenue (aggregate rows)
   \<and> cashOutflow (aggregate rows) = totalExpenses (aggregate rows)
   \<and> netCashFlow (aggregate rows)
     = number_minus (cashInflow (aggregate rows)) (cashOutflow (aggregate rows))
   \<and> (whole_amounts rows \<longrightarrow>
        totalExpenses (aggregate rows)
          = (\<Sum>crd\<leftarrow>rows. case estimatedCost crd of None \<Rightarrow> 0 | Some c \<Rightarrow> c)
        \<and> totalRevenue (aggregate rows)
          = (\<Sum>crd\<leftarrow>filter isCompleted rows. case estimatedCost crd of None \<Rightarrow> 0 | Some c \<Rightarrow> c)
        \<and> netProfit (aggregate rows) = totalRevenue (aggregate rows) - totalExpenses (aggregate rows)
        \<and> netCashFlow (aggregate rows) = cashInflow (aggregate rows) - cashOutflow (aggregate rows))
   \<and> (\<exists>report.
        report_GET None None
          \<lparr>q_periodType = Some ''monthly'', q_year = Some (ascii ''2024''),
           q_month = Some (ascii ''3'')\<rparr> now
          (unchanged
            [\<lparr>category = None, estimatedCost = Some 100, isCompleted = False,
                createdAt = civil 2024 3 15 0 0 0 0\<rparr>,
             \<lparr>category = None, estimatedCost = Some 50, isCompleted = True,
                createdAt = civil 2024 3 20 0 0 0 0\<rparr>])
          = Json200 report
        \<and> totalExpenses (summary report) = 150
        \<and> totalRevenue (summary report) = 50
        \<and> netProfit (summary report) = - 100
        \<and> expenseCategories (summary report)
            = [\<lparr>name = ''Uncategorized'', amount = 150, count = 2\<rparr>])"
proof -
  have costs: "map cost_or_zero cards
      = map (\<lambda>crd. case estimatedCost crd of None \<Rightarrow> 0 | Some c \<Rightarrow> c) cards" for cards
    by (simp add: cost_or_zero_def)
  have sums: "sum_costs cards
      = number_sum (map (\<lambda>crd. case estimatedCost crd of None \<Rightarrow> 0 | Some c \<Rightarrow> c) cards)"
    for cards
    by (simp only: sum_costs_number_sum costs)
  have exact: "sum_costs rows
        = (\<Sum>crd\<leftarrow>rows. case estimatedCost crd of None \<Rightarrow> 0 | Some c \<Rightarrow> c)
      \<and> sum_costs (filter isCompleted rows)
        = (\<Sum>crd\<leftarrow>filter isCompleted rows. case estimatedCost crd of None \<Rightarrow> 0 | Some c \<Rightarrow> c)
      \<and> number_minus (sum_costs (filter isCompleted rows)) (sum_costs rows)
        = sum_costs (filter isCompleted rows) - sum_costs rows"
    if w: "whole_amounts rows"
    using sum_costs_exact [OF w] sum_costs_exact [OF whole_amounts_filter [OF w], of isCompleted]
      number_minus_exact [OF w, of isCompleted]
    by (simp only: costs)
  let ?rows = "[\<lparr>category = None, estimatedCost = Some 100, isCompleted = False,
                   createdAt = civil 2024 3 15 0 0 0 0\<rparr>,
                 \<lparr>category = None, estimatedCost = Some 50, isCompleted = True,
                   createdAt = civil 2024 3 20 0 0 0 0\<rparr>]"
  have period: "requested_period
      \<lparr>q_periodType = Some ''monthly'', q_year = Some (ascii ''2024''),
       q_month = Some (ascii ''3'')\<rparr> now
      = (''monthly'', Some (civil 2024 3 1 0 0 0 0), Some (civil 2024 3 31 23 59 59 0))"
  proof -
    have "parseInt (ascii ''2024'') = Some 2024" "parseInt (ascii ''3'') = Some 3" by code_simp+
    moreover have "period_resolver ''monthly'' (Some 2024) (Some 3)
        = (Some (civil 2024 3 1 0 0 0 0), Some (civil 2024 3 31 23 59 59 0))"
      by code_simp
    ultimately show ?thesis by (simp add: requested_period_def)
  qed
  have cards: "period_cards (civil 2024 3 1 0 0 0 0) (civil 2024 3 31 23 59 59 0) ?rows = ?rows"
    by code_simp
  have agg: "totalExpenses (aggregate ?rows) = 150 \<and> totalRevenue (aggregate ?rows) = 50
      \<and> netProfit (aggregate ?rows) = - 100
      \<and> expenseCategories (aggregate ?rows) = [\<lparr>name = ''Uncategorized'', amount = 150, count = 2\<rparr>]"
    by code_simp
  have "\<not> unauthorized None None" by (simp add: unauthorized_def)
  then have "\<exists>report.
        report_GET None None
          \<lparr>q_periodType = Some ''monthly'', q_year = Some (ascii ''2024''),
           q_month = Some (ascii ''3'')\<rparr> now
          (unchanged ?rows) = Json200 report
        \<and> totalExpenses (summary report) = 150
        \<and> totalRevenue (summary report) = 50
        \<and> netProfit (summary report) = - 100
        \<and> expenseCategories (summary report)
            = [\<lparr>name = ''Uncategorized'', amount = 150, count = 2\<rparr>]"
    using agg by (simp add: report_GET_def report_body_def unchanged_def period cards Let_def)
  moreover have "totalExpenses (aggregate rows)
     = number_sum (map (\<lambda>crd. case estimatedCost crd of None \<Rightarrow> 0 | Some c \<Rightarrow> c) rows)
   \<and> totalRevenue (aggregate rows)
     = number_sum (map (\<lambda>crd. case estimatedCost crd of None \<Rightarrow> 0 | Some c \<Rightarrow> c)
         (filter isCompleted rows))
   \<and> netProfit (aggregate rows)
     = number_minus (totalRevenue (aggregate rows)) (totalExpenses (aggregate rows))
   \<and> cashInflow (aggregate rows) = totalRevenue (aggregate rows)
   \<and> cashOutflow (aggregate rows) = totalExpenses (aggregate rows)
   \<and> netCashFlow (aggregate rows)
     = number_minus (cashInflow (aggregate rows)) (cashOutflow (aggregate rows))"
    by (simp add: aggregate_def Let_def sums)
  moreover have "totalExpenses (aggregate rows)
          = (\<Sum>crd\<leftarrow>rows. case estimatedCost crd of None \<Rightarrow> 0 | Some c \<Rightarrow> c)
        \<and> totalRevenue (aggregate rows)
          = (\<Sum>crd\<leftarrow>filter isCompleted rows. case estimatedCost crd of None \<Rightarrow> 0 | Some c \<Rightarrow> c)
        \<and> netProfit (aggregate rows) = totalRevenue (aggregate rows) - totalExpenses (aggregate rows)
        \<and> netCashFlow (aggregate rows) = cashInflow (aggregate rows) - cashOutflow (aggregate rows)"
    if "whole_amounts rows"
  proof -
    from exact [OF that]
    have e: "sum_costs rows
          = (\<Sum>crd\<leftarrow>rows. case estimatedCost crd of None \<Rightarrow> 0 | Some c \<Rightarrow> c)"
        "sum_costs (filter isCompleted rows)
          = (\<Sum>crd\<leftarrow>filter isCompleted rows. case estimatedCost crd of None \<Rightarrow> 0 | Some c \<Rightarrow> c)"
      and d: "number_minus (sum_costs (filter isCompleted rows)) (sum_costs rows)
          = sum_costs (filter isCompleted rows) - sum_costs rows"
      by blast+
    have fields: "totalExpenses (aggregate rows) = sum_costs rows"
      "totalRevenue (aggregate rows) = sum_costs (filter isCompleted rows)"
      "cashInflow (aggregate rows) = sum_costs (filter isCompleted rows)"
      "cashOutflow (aggregate rows) = sum_costs rows"
      "netProfit (aggregate rows)
         = number_minus (sum_costs (filter isCompleted rows)) (sum_costs rows)"
      "netCashFlow (aggregate rows)
         = number_minus (sum_costs (filter isCompleted rows)) (sum_costs rows)"
      by (simp_all add: aggregate_def Let_def)
    show ?thesis unfolding fields d using e by simp
  qed
  ultimately show ?thesis by blast
qed

theorem aggregator_totals_witness:
  "whole_amounts
     [\<lparr>category = None, estimatedCost = Some 100, isCompleted = False, createdAt = 0\<rparr>,
      \<lparr>category = Some ''Land'', estimatedCost = Some 50, isCompleted = True, createdAt = 1\<rparr>]
   \<and> netProfit (aggregate
     [\<lparr>category = None, estimatedCost = Some 100, isCompleted = False, createdAt = 0\<rparr>,
      \<lparr>category = Some ''Land'', estimatedCost = Some 50, isCompleted = True, createdAt = 1\<rparr>])
     = totalRevenue (aggregate
     [\<lparr>category = None, estimatedCost = Some 100, isCompleted = False, createdAt = 0\<rparr>,
      \<lparr>category = Some ''Land'', estimatedCost = Some 50, isCompleted = True, createdAt = 1\<rparr>])
       - totalExpenses (aggregate
     [\<lparr>category = None, estimatedCost = Some 100, isCompleted = False, createdAt = 0\<rparr>,
      \<lparr>category = Some ''Land'', estimatedCost = Some 50, isCompleted = True, createdAt = 1\<rparr>])
   \<and> totalExpenses (aggregate
     [\<lparr>category = None, estimatedCost = Some 100, isCompleted = False, createdAt = 0\<rparr>,
      \<lparr>category = Some ''Land'', estimatedCost = Some 50, isCompleted = True, createdAt = 1\<rparr>])
     = 150"
proof -
  let ?rows = "[\<lparr>category = None, estimatedCost = Some 100, isCompleted = False, createdAt = 0\<rparr>,
      \<lparr>category = Some ''Land'', estimatedCost = Some 50, isCompleted = True, createdAt = 1\<rparr>]"
  have w: "whole_amounts ?rows" by code_simp
  from aggregator_totals [of ?rows] w
  have "netProfit (aggregate ?rows) = totalRevenue (aggregate ?rows) - totalExpenses (aggregate ?rows)"
    and "totalExpenses (aggregate ?rows)
          = (\<Sum>crd\<leftarrow>?rows. case estimatedCost crd of None \<Rightarrow> 0 | Some c \<Rightarrow> c)"
    by blast+
  with w show ?thesis by simp
qed

section \<open>Claims about the Period Resolver\<close>

text \<open>
  C4, as amended. For every month from 1 to 12 and every year that a Date holds as it is
  given (\<open>plain_year\<close>), the quarterly branch computes \<open>quarter = ceil(month / 3)\<close>,
  \<open>periodStart\<close> = 00:00:00 of the first day of month \<open>(quarter - 1) * 3 + 1\<close> and
  \<open>periodEnd\<close> = 23:59:59 of the last day of month \<open>quarter * 3\<close> of that year. The
  interval spans exactly three calendar months whatever their lengths: from its first
  instant to one second after \<open>periodEnd\<close> there are as many days as the three months
  have together.
\<close>

theorem quarterly_period:
  assumes "plain_year year" "1 \<le> month" "month \<le> 12"
  shows "let quarter = Math_ceil_div month 3;
             first = (quarter - 1) * 3 + 1;
             last = quarter * 3
         in 3 * (quarter - 1) < month \<and> month \<le> 3 * quarter
            \<and> period_resolver ''quarterly'' (Some year) (Some month) =
                (Some (civil year first 1 0 0 0 0),
                 Some (civil year last (days_in_month year last) 23 59 59 0))
            \<and> last = first + 2
            \<and> civil year last (days_in_month year last) 23 59 59 0 + 1000
                  - civil year first 1 0 0 0 0
                = (days_in_month year first + days_in_month year (first + 1)
                   + days_in_month year last) * msPerDay"
proof -
  define q where "q = Math_ceil_div month 3"
  have ceil: "3 * (q - 1) < month \<and> month \<le> 3 * q"
    using assms(2,3) unfolding q_def
    by (cases rule: month_cases) (simp_all add: Math_ceil_div_def)
  have "1 \<le> q" "q \<le> 4"
    using quarter_of_month [OF assms(2,3)] by (simp_all add: q_def)
  then have "q = 1 \<or> q = 2 \<or> q = 3 \<or> q = 4" by presburger
  then have first: "(q - 1) * 3 + 1 = 1 \<or> (q - 1) * 3 + 1 = 4 \<or> (q - 1) * 3 + 1 = 7
      \<or> (q - 1) * 3 + 1 = 10" by auto
  have last: "q * 3 = (q - 1) * 3 + 1 + 2" by simp
  have len: "civil year (q * 3) (days_in_month year (q * 3)) 23 59 59 0 + 1000
                  - civil year ((q - 1) * 3 + 1) 1 0 0 0 0
      = (days_in_month year ((q - 1) * 3 + 1) + days_in_month year ((q - 1) * 3 + 1 + 1)
                   + days_in_month year (q * 3)) * msPerDay"
    using three_months_length [OF first, of year] by (simp only: last [symmetric])
  show ?thesis
    unfolding Let_def q_def [symmetric]
    using ceil quarterly_interval [OF assms] last len by (simp only: q_def [symmetric] simp_thms)
qed

theorem quarterly_period_witness:
  "Math_ceil_div 2 3 = 1
   \<and> period_resolver ''quarterly'' (Some 2024) (Some 2) =
       (Some (civil 2024 1 1 0 0 0 0), Some (civil 2024 3 31 23 59 59 0))"
  using quarterly_period [of 2024 2]
  by (simp add: plain_year_def Math_ceil_div_def days_in_month_def Let_def)

text \<open>
  C4 as stated fails for some years: a year beyond the range of time values gives
  Invalid Dates and no interval (and a year from 0 to 99 is read as 1900 + year).
\<close>

theorem quarterly_period_out_of_range:
  "period_resolver ''quarterly'' (Some 300000) (Some 2) = (None, None)"
  by code_simp

text \<open>
  C5, as amended. For every valid triple (a year that a Date holds as it is given, a
  month from 1 to 12, any period type), \<open>periodStart\<close> is 00:00:00 of the first day of
  the resolved period and \<open>periodEnd\<close> is 23:59:59 of its last day (yearly: 1 January
  to 31 December of the year; monthly: the first to the last day of the month), and
  \<open>periodStart \<le> periodEnd\<close>. \<open>periodEnd\<close> is the last whole second of the period: the
  instants of the period are exactly those from \<open>periodStart\<close> to 999 milliseconds after
  \<open>periodEnd\<close>.
\<close>

theorem period_bounds:
  assumes "plain_year year" "1 \<le> month" "month \<le> 12"
  shows "period_resolver ''yearly'' (Some year) (Some month) =
           (Some (civil year 1 1 0 0 0 0), Some (civil year 12 31 23 59 59 0))
       \<and> period_resolver ''monthly'' (Some year) (Some month) =
           (Some (civil year month 1 0 0 0 0),
            Some (civil year month (days_in_month year month) 23 59 59 0))
       \<and> (\<forall>periodType. \<exists>periodStart periodEnd.
             period_resolver periodType (Some year) (Some month) = (Some periodStart, Some periodEnd)
             \<and> periodStart \<le> periodEnd)
       \<and> (\<forall>t. YearFromTime t = year \<longleftrightarrow>
             civil year 1 1 0 0 0 0 \<le> t \<and> t \<le> civil year 12 31 23 59 59 0 + 999)
       \<and> (\<forall>t. in_month year month t \<longleftrightarrow>
             civil year month 1 0 0 0 0 \<le> t
             \<and> t \<le> civil year month (days_in_month year month) 23 59 59 0 + 999)"
proof -
  have dim: "1 \<le> days_in_month year m" for m
    using days_in_month_bounds [of year m] by simp
  have yearly: "period_resolver ''yearly'' (Some year) (Some month) =
           (Some (civil year 1 1 0 0 0 0), Some (civil year 12 31 23 59 59 0))"
    by (rule yearly_interval [OF assms(1)])
  have monthly: "period_resolver periodType (Some year) (Some month) =
           (Some (civil year month 1 0 0 0 0),
            Some (civil year month (days_in_month year month) 23 59 59 0))"
    if "periodType \<noteq> ''yearly''" "periodType \<noteq> ''quarterly''" for periodType
    by (rule monthly_interval [OF assms that])
  have ordered: "\<exists>periodStart periodEnd.
             period_resolver periodType (Some year) (Some month) = (Some periodStart, Some periodEnd)
             \<and> periodStart \<le> periodEnd" for periodType
  proof (cases "periodType = ''yearly''")
    case True
    have "civil year 1 1 0 0 0 0 \<le> civil year 12 31 23 59 59 0"
      by (simp add: civil_def month_start_def msPerDay_def)
    with yearly True show ?thesis by simp
  next
    case ny: False
    show ?thesis
    proof (cases "periodType = ''quarterly''")
      case True
      define q where "q = Math_ceil_div month 3"
      have "1 \<le> q" "q \<le> 4"
        using quarter_of_month [OF assms(2,3)] by (simp_all add: q_def)
      then have "q = 1 \<or> q = 2 \<or> q = 3 \<or> q = 4" by presburger
      then have "civil year ((q - 1) * 3 + 1) 1 0 0 0 0
            \<le> civil year (q * 3) (days_in_month year (q * 3)) 23 59 59 0"
        using dim [of "q * 3"]
        by (elim disjE) (simp_all add: civil_def month_start_def msPerDay_def)
      with quarterly_interval [OF assms] True show ?thesis by (simp add: q_def)
    next
      case False
      from monthly [OF ny False] civil_mono_in_month [OF dim, of year month month]
      show ?thesis by simp
    qed
  qed
  have year_iv: "YearFromTime t = year \<longleftrightarrow>
             civil year 1 1 0 0 0 0 \<le> t \<and> t \<le> civil year 12 31 23 59 59 0 + 999" for t
    using in_year_iff [of t year] by (simp only: civil_ms [of _ _ _ _ _ _ 999])
  have month_iv: "in_month year month t \<longleftrightarrow>
             civil year month 1 0 0 0 0 \<le> t
             \<and> t \<le> civil year month (days_in_month year month) 23 59 59 0 + 999" for t
    using in_month_iff [OF assms(2,3), of year t] by (simp only: civil_ms [of _ _ _ _ _ _ 999])
  from yearly monthly [of "''monthly''"] ordered year_iv month_iv
  show ?thesis by simp
qed

theorem period_bounds_witness:
  "period_resolver ''monthly'' (Some 2024) (Some 2) =
     (Some (civil 2024 2 1 0 0 0 0), Some (civil 2024 2 29 23 59 59 0))
   \<and> period_resolver ''yearly'' (Some 2024) (Some 2) =
     (Some (civil 2024 1 1 0 0 0 0), Some (civil 2024 12 31 23 59 59 0))"
proof -
  have "plain_year 2024" "(1::int) \<le> 2" "(2::int) \<le> 12"
    by (simp_all add: plain_year_def)
  from period_bounds [OF this] have
    "period_resolver ''monthly'' (Some 2024) (Some 2) =
       (Some (civil 2024 2 1 0 0 0 0), Some (civil 2024 2 (days_in_month 2024 2) 23 59 59 0))"
    "period_resolver ''yearly'' (Some 2024) (Some 2) =
       (Some (civil 2024 1 1 0 0 0 0), Some (civil 2024 12 31 23 59 59 0))"
    by blast+
  moreover have "days_in_month 2024 2 = 29" by code_simp
  ultimately show ?thesis by simp
qed

text \<open>
  C5 as stated fails: \<open>periodEnd\<close> is not the last instant of the period. Half a second
  after the \<open>periodEnd\<close> of March 2024 is still an instant of March 2024.
\<close>

theorem periodEnd_not_last_instant:
  "period_resolver ''monthly'' (Some 2024) (Some 3) =
     (Some (civil 2024 3 1 0 0 0 0), Some (civil 2024 3 31 23 59 59 0))
   \<and> in_month 2024 3 (civil 2024 3 31 23 59 59 500)
   \<and> civil 2024 3 31 23 59 59 0 < civil 2024 3 31 23 59 59 500"
  by code_simp

section \<open>Claims about the History Builder\<close>

text \<open>
  C3. The default of \<open>monthsCount\<close> is 12 and a parsed value is clamped to at most 24.
  For a current time in the years 1970 to 275759 and queries that succeed, the History
  Builder with \<open>monthsCount = min N 24\<close> returns exactly \<open>min N 24\<close> summaries. Entry
  \<open>i\<close> covers the calendar month \<open>i\<close> whole months before the current month (years
  rolling over): its interval is the monthly interval of the Period Resolver for that
  month, and its totals are those of the rows of that interval in the table as its
  query finds it. Entry 0 is the month of the current time, and each entry's period
  ends one second before the period of the entry before it begins, so the sequence
  runs from the most recent month to the oldest.
\<close>

theorem history_builder_entries:
  assumes "1970 \<le> YearFromTime now" "YearFromTime now \<le> 275759"
  shows "months_count None = Some 12
     \<and> (\<forall>s n. parseInt s = Some n \<longrightarrow> months_count (Some s) = Some (min n 24))
     \<and> (\<exists>summaries.
          history_builder now (available tables) (Some (min (int N) 24)) = Some summaries
          \<and> length summaries = min N 24
          \<and> (\<forall>i < length summaries.
                \<exists>y m. 1 \<le> m \<and> m \<le> 12
                  \<and> month_index y m
                      = month_index (YearFromTime now) (MonthFromTime now + 1) - int i
                  \<and> period_resolver ''monthly'' (Some y) (Some m)
                      = (Some (entryPeriodStart (summaries ! i)),
                         Some (entryPeriodEnd (summaries ! i)))
                  \<and> entryTotals (summaries ! i)
                      = aggregate (period_cards (entryPeriodStart (summaries ! i))
                          (entryPeriodEnd (summaries ! i)) (tables (int i))))
          \<and> (0 < length summaries \<longrightarrow>
                entryPeriodStart (summaries ! 0) \<le> now
                \<and> now \<le> entryPeriodEnd (summaries ! 0) + 999)
          \<and> (\<forall>i. i + 1 < length summaries \<longrightarrow>
                entryPeriodEnd (summaries ! (i + 1)) + 1000 = entryPeriodStart (summaries ! i)))"
proof -
  define K where "K = YearFromTime now * 12 + MonthFromTime now"
  define f where "f j = month_entry (tables j) ((K - j) div 12) ((K - j) mod 12 + 1)" for j
  define n where "n = min (int N) 24"
  define summaries where "summaries = map f [0..n - 1]"
  have n: "0 \<le> n" "n \<le> 24" "nat n = min N 24" by (simp_all add: n_def)
  have built: "history_builder now (available tables) (Some n) = Some summaries"
    using history_builder_map [OF assms n(2), of tables]
    by (simp add: summaries_def f_def K_def)
  have len: "length summaries = min N 24"
    using n by (simp add: summaries_def)
  have nth: "summaries ! i = f (int i)" if "i < length summaries" for i
  proof -
    have "n = int (min N 24)" by (simp add: n_def)
    with that len have "0 + int i \<le> n - 1" by simp
    then have "[0..n - 1] ! i = 0 + int i" by (rule nth_upto)
    with that show ?thesis by (simp add: summaries_def)
  qed
  have K0: "K = month_index (YearFromTime now) (MonthFromTime now + 1)"
    by (simp add: K_def month_index_def)
  have entry: "\<exists>y m. 1 \<le> m \<and> m \<le> 12
        \<and> month_index y m = month_index (YearFromTime now) (MonthFromTime now + 1) - int i
        \<and> period_resolver ''monthly'' (Some y) (Some m)
            = (Some (entryPeriodStart (summaries ! i)), Some (entryPeriodEnd (summaries ! i)))
        \<and> entryTotals (summaries ! i)
            = aggregate (period_cards (entryPeriodStart (summaries ! i))
                (entryPeriodEnd (summaries ! i)) (tables (int i)))"
    if i: "i < length summaries" for i
  proof -
    let ?k = "K - int i"
    from i len have i': "0 \<le> int i" "int i \<le> 23" by simp_all
    have plain: "plain_year (?k div 12)"
      using month_summary_monthly(2) [OF assms i', of ?k] by (simp add: K_def)
    have "period_resolver ''monthly'' (Some (?k div 12)) (Some (?k mod 12 + 1))
        = (Some (civil (?k div 12) (?k mod 12 + 1) 1 0 0 0 0),
           Some (civil (?k div 12) (?k mod 12 + 1)
                   (days_in_month (?k div 12) (?k mod 12 + 1)) 23 59 59 0))"
      by (rule monthly_interval [OF plain month_of_index(1,2)]) simp_all
    then show ?thesis
      using month_of_index [of ?k] nth [OF i]
      by (intro exI [of _ "?k div 12"] exI [of _ "?k mod 12 + 1"])
         (simp add: f_def month_entry_def Let_def K0)
  qed
  have current: "entryPeriodStart (summaries ! 0) \<le> now
        \<and> now \<le> entryPeriodEnd (summaries ! 0) + 999"
    if "0 < length summaries"
  proof -
    have M: "0 \<le> MonthFromTime now" "MonthFromTime now \<le> 11"
      using MonthFromTime_range [of now] by simp_all
    then have "K div 12 = YearFromTime now" "K mod 12 = MonthFromTime now"
      unfolding K_def
      using div_mult_self4 [of 12 "YearFromTime now" "MonthFromTime now"]
        mod_mult_self4 [of 12 "YearFromTime now" "MonthFromTime now"]
      by (simp_all add: mult.commute)
    moreover have "in_month (YearFromTime now) (MonthFromTime now + 1) now"
      by (simp add: in_month_def)
    then have "civil (YearFromTime now) (MonthFromTime now + 1) 1 0 0 0 0 \<le> now
        \<and> now \<le> civil (YearFromTime now) (MonthFromTime now + 1)
                  (days_in_month (YearFromTime now) (MonthFromTime now + 1)) 23 59 59 0 + 999"
      using in_month_iff [of "MonthFromTime now + 1" "YearFromTime now" now] M
      by (simp only: civil_ms [of _ _ _ _ _ _ 999])
    ultimately show ?thesis
      using nth [OF that] by (simp add: f_def month_entry_def Let_def)
  qed
  have adjacent: "entryPeriodEnd (summaries ! (i + 1)) + 1000 = entryPeriodStart (summaries ! i)"
    if i: "i + 1 < length summaries" for i
  proof -
    let ?k = "K - int i"
    let ?j = "K - int (i + 1)"
    have "month_index (?k div 12) (?k mod 12 + 1) = month_index (?j div 12) (?j mod 12 + 1) + 1"
      by (simp only: month_of_index)
    from next_month_start [OF month_of_index(1,2) month_of_index(1,2) this]
    show ?thesis
      using nth [of i] nth [OF i] i by (simp add: f_def month_entry_def Let_def)
  qed
  have "months_count None = Some 12" by code_simp
  moreover have "\<forall>s n. parseInt s = Some n \<longrightarrow> months_count (Some s) = Some (min n 24)"
    by (simp add: months_count_def)
  ultimately show ?thesis
    using built len entry current adjacent unfolding n_def by blast
qed

theorem history_builder_entries_witness:
  "months_count None = Some 12
   \<and> (\<exists>summaries.
        history_builder (civil 2024 3 15 10 30 0 0) (available (\<lambda>i. [])) (Some 14)
          = Some summaries
        \<and> length summaries = 14)"
proof -
  have h: "1970 \<le> YearFromTime (civil 2024 3 15 10 30 0 0)"
    "YearFromTime (civil 2024 3 15 10 30 0 0) \<le> 275759"
    by code_simp+
  have "min (int 14) 24 = 14" "min (14::nat) 24 = 14" by simp_all
  with history_builder_entries [OF h, of "\<lambda>i. []" 14] show ?thesis by auto
qed

section \<open>Claims about the endpoints\<close>

text \<open>
  C7. For both endpoints: when an API key is configured, every request whose
  Authorization header is not exactly \<open>Bearer <key>\<close> (missing, malformed or with a wrong
  key) gets the 401 response with one fixed message. When no key is configured (unset or
  empty), the check is skipped whatever the header is: the response is never 401, and
  the request goes on to its 200 response, the report as soon as its period resolves
  and its three queries succeed, and the history for every \<open>months\<close>, when its queries
  succeed and the clock is in the years 1970 to 275759.
\<close>

theorem api_key_check:
  "(k \<noteq> '''' \<and> authHeader \<noteq> Some (''Bearer '' @ k) \<longrightarrow>
      report_GET (Some k) authHeader query now queries
        = JsonError 401 ''Unauthorized. Invalid or missing API key.''
      \<and> history_GET (Some k) authHeader months now db
        = JsonError 401 ''Unauthorized. Invalid or missing API key.'')
   \<and> (apiKey = None \<or> apiKey = Some '''' \<longrightarrow>
      status (report_GET apiKey authHeader query now queries) \<noteq> 401
      \<and> status (history_GET apiKey authHeader months now db) \<noteq> 401
      \<and> report_GET apiKey authHeader query now queries = report_GET apiKey None query now queries
      \<and> history_GET apiKey authHeader months now db = history_GET apiKey None months now db
      \<and> ((\<exists>p s e. requested_period query now = (p, Some s, Some e))
            \<and> periodCards_query queries \<noteq> None \<and> allCards_query queries \<noteq> None
            \<and> allCompleted_query queries \<noteq> None \<longrightarrow>
            status (report_GET apiKey authHeader query now queries) = 200)
      \<and> (1970 \<le> YearFromTime now \<and> YearFromTime now \<le> 275759 \<and> (\<forall>i. db i \<noteq> None) \<longrightarrow>
            status (history_GET apiKey authHeader months now db) = 200))"
proof -
  have denied: "report_GET (Some k) authHeader query now queries
        = JsonError 401 ''Unauthorized. Invalid or missing API key.''
      \<and> history_GET (Some k) authHeader months now db
        = JsonError 401 ''Unauthorized. Invalid or missing API key.''"
    if "k \<noteq> ''''" "authHeader \<noteq> Some (''Bearer '' @ k)"
  proof -
    from that have "unauthorized (Some k) authHeader" by (simp add: unauthorized_iff)
    then show ?thesis by (simp add: report_GET_def history_GET_def)
  qed
  have skipped: "status (report_GET apiKey authHeader query now queries) \<noteq> 401
      \<and> status (history_GET apiKey authHeader months now db) \<noteq> 401
      \<and> report_GET apiKey authHeader query now queries = report_GET apiKey None query now queries
      \<and> history_GET apiKey authHeader months now db = history_GET apiKey None months now db
      \<and> ((\<exists>p s e. requested_period query now = (p, Some s, Some e))
            \<and> periodCards_query queries \<noteq> None \<and> allCards_query queries \<noteq> None
            \<and> allCompleted_query queries \<noteq> None \<longrightarrow>
            status (report_GET apiKey authHeader query now queries) = 200)
      \<and> (1970 \<le> YearFromTime now \<and> YearFromTime now \<le> 275759 \<and> (\<forall>i. db i \<noteq> None) \<longrightarrow>
            status (history_GET apiKey authHeader months now db) = 200)"
    if "apiKey = None \<or> apiKey = Some ''''"
  proof -
    from that have open_door: "\<not> unauthorized apiKey h" for h
      by (auto simp: unauthorized_iff)
    have r: "report_GET apiKey h query now queries = report_body query now queries" for h
      by (simp add: report_GET_def open_door)
    have h: "history_GET apiKey h months now db = history_body months now db" for h
      by (simp add: history_GET_def open_door)
    have "status (report_GET apiKey authHeader query now queries) \<noteq> 401"
      unfolding r by (simp add: report_body_def Let_def split: prod.splits option.splits)
    moreover have "status (history_GET apiKey authHeader months now db) \<noteq> 401"
      unfolding h by (simp add: history_body_def split: option.splits)
    moreover have "report_GET apiKey authHeader query now queries = report_GET apiKey None query now queries"
      by (simp only: r)
    moreover have "history_GET apiKey authHeader months now db = history_GET apiKey None months now db"
      by (simp only: h)
    moreover have "status (report_GET apiKey authHeader query now queries) = 200"
      if "\<exists>p s e. requested_period query now = (p, Some s, Some e)"
        "periodCards_query queries \<noteq> None" "allCards_query queries \<noteq> None"
        "allCompleted_query queries \<noteq> None"
      using that unfolding r by (auto simp: report_body_def Let_def)
    moreover have "status (history_GET apiKey authHeader months now db) = 200"
      if "1970 \<le> YearFromTime now" "YearFromTime now \<le> 275759" "\<forall>i. db i \<noteq> None"
    proof -
      from that(3) have "db = available (\<lambda>i. the (db i))"
        by (auto simp: available_def)
      with history_builder_total [OF that(1,2), of "\<lambda>i. the (db i)" months]
      show ?thesis unfolding h by (auto simp: history_body_def)
    qed
    ultimately show ?thesis by blast
  qed
  from denied skipped show ?thesis by blast
qed

theorem api_key_check_witness:
  "report_GET (Some ''secret'') (Some ''Bearer  secret'')
      \<lparr>q_periodType = None, q_year = None, q_month = None\<rparr> (civil 2024 3 15 10 30 0 0)
      (unchanged [])
     = JsonError 401 ''Unauthorized. Invalid or missing API key.''
   \<and> history_GET (Some ''secret'') None None (civil 2024 3 15 10 30 0 0) (available (\<lambda>i. []))
     = JsonError 401 ''Unauthorized. Invalid or missing API key.''
   \<and> status (report_GET None (Some ''Bearer  secret'')
      \<lparr>q_periodType = None, q_year = None, q_month = None\<rparr> (civil 2024 3 15 10 30 0 0)
      (unchanged [])) = 200
   \<and> status (history_GET None None None (civil 2024 3 15 10 30 0 0) (available (\<lambda>i. []))) = 200"
proof -
  let ?q = "\<lparr>q_periodType = None, q_year = None, q_month = None\<rparr>"
  let ?now = "civil 2024 3 15 10 30 0 0"
  have a: "''secret'' \<noteq> ''''" "Some ''Bearer  secret'' \<noteq> Some (''Bearer '' @ ''secret'')"
    "None \<noteq> Some (''Bearer '' @ ''secret'')"
    by simp_all
  have b: "\<exists>p s e. requested_period ?q ?now = (p, Some s, Some e)"
  proof -
    have "requested_period ?q ?now = (''monthly'', Some 1709251200000, Some 1711929599000)"
      by code_simp
    then show ?thesis by blast
  qed
  have c: "1970 \<le> YearFromTime ?now" "YearFromTime ?now \<le> 275759"
    by code_simp+
  have d: "\<forall>i. available (\<lambda>i. []) i \<noteq> None" by (simp add: available_def)
  have e: "periodCards_query (unchanged []) \<noteq> None" "allCards_query (unchanged []) \<noteq> None"
    "allCompleted_query (unchanged []) \<noteq> None"
    by (simp_all add: unchanged_def)
  from api_key_check [of "''secret''" "Some ''Bearer  secret''" ?q ?now "unchanged []" None "available (\<lambda>i. [])" None]
    api_key_check [of "''secret''" None ?q ?now "unchanged []" None "available (\<lambda>i. [])" None]
    a b c d e
  show ?thesis by blast
qed

text \<open>
  C8, as amended. A malformed numeric parameter never gets a 400 (the statuses are 200,
  401 and 500 only), and an absent parameter takes its default. A parameter is read by
  \<open>parseInt\<close>, which accepts leading white space, a sign and any text after the digits;
  a value that it reads as the default gives the response of the default. A \<open>year\<close>
  in which \<open>parseInt\<close> finds no number makes the dates of the period invalid, and the
  request ends in the 500 response; so does such a \<open>month\<close>, except in a yearly
  report, which does not read the month. Such a \<open>months\<close> makes the loop run zero
  times: the response is 200 with no summaries, not the twelve of the default.
\<close>

theorem malformed_parameters:
  "status (report_GET apiKey authHeader query now queries) \<in> {200, 401, 500}
   \<and> status (history_GET apiKey authHeader months now db) \<in> {200, 401, 500}
   \<and> (parseInt s = Some (YearFromTime now) \<longrightarrow>
        report_GET apiKey authHeader (query\<lparr>q_year := None\<rparr>) now queries
          = report_GET apiKey authHeader (query\<lparr>q_year := Some s\<rparr>) now queries)
   \<and> (parseInt s = Some (MonthFromTime now + 1) \<longrightarrow>
        report_GET apiKey authHeader (query\<lparr>q_month := None\<rparr>) now queries
          = report_GET apiKey authHeader (query\<lparr>q_month := Some s\<rparr>) now queries)
   \<and> (parseInt s = Some 12 \<longrightarrow>
        history_GET apiKey authHeader None now db = history_GET apiKey authHeader (Some s) now db)
   \<and> (parseInt s = None \<and> \<not> unauthorized apiKey authHeader \<longrightarrow>
        report_GET apiKey authHeader (query\<lparr>q_year := Some s\<rparr>) now queries
          = JsonError 500 ''Internal server error'')
   \<and> (parseInt s = None \<and> \<not> unauthorized apiKey authHeader
        \<and> q_periodType query \<noteq> Some ''yearly'' \<longrightarrow>
        report_GET apiKey authHeader (query\<lparr>q_month := Some s\<rparr>) now queries
          = JsonError 500 ''Internal server error'')
   \<and> (q_periodType query = Some ''yearly'' \<longrightarrow>
        report_GET apiKey authHeader (query\<lparr>q_month := Some s\<rparr>) now queries
          = report_GET apiKey authHeader (query\<lparr>q_month := None\<rparr>) now queries)
   \<and> (parseInt s = None \<and> \<not> unauthorized apiKey authHeader \<longrightarrow>
        history_GET apiKey authHeader (Some s) now db = Json200 [])"
proof -
  have "status (report_GET apiKey authHeader query now queries) \<in> {200, 401, 500}"
    using status_report_GET [of apiKey authHeader query now queries] by auto
  moreover have "status (history_GET apiKey authHeader months now db) \<in> {200, 401, 500}"
    using status_history_GET [of apiKey authHeader months now db] by auto
  moreover have "report_GET apiKey authHeader (query\<lparr>q_year := None\<rparr>) now queries
          = report_GET apiKey authHeader (query\<lparr>q_year := Some s\<rparr>) now queries"
    if "parseInt s = Some (YearFromTime now)"
    using that by (simp add: report_GET_def report_body_def requested_period_def)
  moreover have "report_GET apiKey authHeader (query\<lparr>q_month := None\<rparr>) now queries
          = report_GET apiKey authHeader (query\<lparr>q_month := Some s\<rparr>) now queries"
    if "parseInt s = Some (MonthFromTime now + 1)"
    using that by (simp add: report_GET_def report_body_def requested_period_def)
  moreover have "history_GET apiKey authHeader None now db
          = history_GET apiKey authHeader (Some s) now db"
    if "parseInt s = Some 12"
  proof -
    have "parseInt (ascii ''12'') = Some 12" by code_simp
    with that show ?thesis
      by (simp add: history_GET_def history_body_def months_count_def)
  qed
  moreover have "report_GET apiKey authHeader (query\<lparr>q_year := Some s\<rparr>) now queries
          = JsonError 500 ''Internal server error''"
    if "parseInt s = None" "\<not> unauthorized apiKey authHeader"
    using that
    by (simp add: report_GET_def report_body_def requested_period_def period_resolver_NaN_year)
  moreover have "report_GET apiKey authHeader (query\<lparr>q_month := Some s\<rparr>) now queries
          = JsonError 500 ''Internal server error''"
    if "parseInt s = None" "\<not> unauthorized apiKey authHeader"
      "q_periodType query \<noteq> Some ''yearly''"
  proof -
    from that(3) have "(case q_periodType query of None \<Rightarrow> ''monthly'' | Some p \<Rightarrow> p) \<noteq> ''yearly''"
      by (cases "q_periodType query") simp_all
    from period_resolver_NaN_month [OF this] that(1,2) show ?thesis
      by (simp add: report_GET_def report_body_def requested_period_def)
  qed
  moreover have "report_GET apiKey authHeader (query\<lparr>q_month := Some s\<rparr>) now queries
          = report_GET apiKey authHeader (query\<lparr>q_month := None\<rparr>) now queries"
    if "q_periodType query = Some ''yearly''"
    using that
      period_resolver_yearly_month [of "case q_year query of None \<Rightarrow> Some (YearFromTime now)
        | Some s \<Rightarrow> parseInt s" "parseInt s" "Some (MonthFromTime now + 1)"]
    by (simp add: report_GET_def report_body_def requested_period_def)
  moreover have "history_GET apiKey authHeader (Some s) now db = Json200 []"
    if "parseInt s = None" "\<not> unauthorized apiKey authHeader"
    using that
    by (simp add: history_GET_def history_body_def months_count_def history_builder_def
          history_loop_NaN)
  ultimately show ?thesis by blast
qed

theorem malformed_parameters_witness:
  "report_GET None None
       \<lparr>q_periodType = None, q_year = Some (0xA0 # ascii ''2024abc''), q_month = None\<rparr>
       (civil 2024 3 15 10 30 0 0) (unchanged [])
     = report_GET None None \<lparr>q_periodType = None, q_year = None, q_month = None\<rparr>
       (civil 2024 3 15 10 30 0 0) (unchanged [])
   \<and> report_GET None None
       \<lparr>q_periodType = None, q_year = Some (ascii ''twenty''), q_month = None\<rparr>
       (civil 2024 3 15 10 30 0 0) (unchanged [])
     = JsonError 500 ''Internal server error''
   \<and> history_GET None None (Some (ascii ''all'')) (civil 2024 3 15 10 30 0 0) (available (\<lambda>i. []))
     = Json200 []"
proof -
  let ?q = "\<lparr>q_periodType = None, q_year = None, q_month = None\<rparr>"
  let ?now = "civil 2024 3 15 10 30 0 0"
  have a: "parseInt (0xA0 # ascii ''2024abc'') = Some (YearFromTime ?now)" by code_simp
  have b: "parseInt (ascii ''twenty'') = None" "parseInt (ascii ''all'') = None" by code_simp+
  have c: "\<not> unauthorized None None" by (simp add: unauthorized_def)
  from malformed_parameters [of None None ?q ?now "unchanged []" None "available (\<lambda>i. [])"
      "0xA0 # ascii ''2024abc''"] a
  have 1: "report_GET None None (?q\<lparr>q_year := None\<rparr>) ?now (unchanged [])
      = report_GET None None (?q\<lparr>q_year := Some (0xA0 # ascii ''2024abc'')\<rparr>) ?now
          (unchanged [])"
    by blast
  from malformed_parameters [of None None ?q ?now "unchanged []" None "available (\<lambda>i. [])" "ascii ''twenty''"]
    b c
  have 2: "report_GET None None (?q\<lparr>q_year := Some (ascii ''twenty'')\<rparr>) ?now (unchanged [])
      = JsonError 500 ''Internal server error''"
    by blast
  from malformed_parameters [of None None ?q ?now "unchanged []" None "available (\<lambda>i. [])" "ascii ''all''"]
    b c
  have 3: "history_GET None None (Some (ascii ''all'')) ?now (available (\<lambda>i. [])) = Json200 []"
    by blast
  from 1 2 3 show ?thesis by simp
qed

text \<open>
  C8 as stated fails: with the clock in March 2024, a \<open>year\<close> that is not a number gets
  the status 500 where the default year gets 200, and a \<open>months\<close> that is not a number
  gets no summary where the default gets twelve.
\<close>

theorem malformed_not_defaulted:
  "status (report_GET None None
      \<lparr>q_periodType = None, q_year = Some (ascii ''abc''), q_month = None\<rparr>
      (civil 2024 3 15 10 30 0 0) (unchanged [])) = 500
   \<and> status (report_GET None None \<lparr>q_periodType = None, q_year = None, q_month = None\<rparr>
      (civil 2024 3 15 10 30 0 0) (unchanged [])) = 200
   \<and> history_GET None None (Some (ascii ''abc'')) (civil 2024 3 15 10 30 0 0) (available (\<lambda>i. []))
      = Json200 []
   \<and> (case history_GET None None None (civil 2024 3 15 10 30 0 0) (available (\<lambda>i. [])) of
        Json200 summaries \<Rightarrow> length summaries | JsonError code message \<Rightarrow> 0) = 12"
  by code_simp

text \<open>
  C6, as amended. The completion rate of the report is computed from \<open>totalItems\<close> and
  \<open>totalCompleted\<close>, each counted over the whole table by a query of its own, whatever
  period is requested. It is 0 when \<open>totalItems\<close> is 0, and otherwise \<open>Math.round\<close> of
  the double-precision product \<open>(totalCompleted / totalItems) * 100\<close>, which is never
  negative. Whenever \<open>totalCompleted\<close> is at most \<open>totalItems\<close>, as it is when the table
  is the same at the two counts, the rate is an integer from 0 to 100 that differs from
  the exact percentage by at most \<open>1/2 + 2^-45\<close>, so that it is the exact percentage
  rounded to an integer except near a half.
\<close>

theorem completion_rate_report:
  assumes "report_GET apiKey authHeader query now db = Json200 r"
  shows "(\<exists>all_rows completed_rows.
            allCards_query db = Some all_rows \<and> allCompleted_query db = Some completed_rows
            \<and> totalItems r = int (length all_rows)
            \<and> totalCompleted r = int (length (filter isCompleted completed_rows)))
       \<and> (\<forall>query' db' r'.
              report_GET apiKey authHeader query' now db' = Json200 r'
              \<and> allCards_query db' = allCards_query db
              \<and> allCompleted_query db' = allCompleted_query db
            \<longrightarrow> completionRate r' = completionRate r)
       \<and> (totalItems r = 0 \<longrightarrow> completionRate r = 0)
       \<and> (0 < totalItems r \<longrightarrow>
             completionRate r
               = Math_round (number_times
                   (number_divide (of_int (totalCompleted r)) (of_int (totalItems r))) 100))
       \<and> 0 \<le> completionRate r
       \<and> (allCards_query db = allCompleted_query db \<longrightarrow> totalCompleted r \<le> totalItems r)
       \<and> (totalCompleted r \<le> totalItems r \<longrightarrow>
             completionRate r \<le> 100
             \<and> (0 < totalItems r \<longrightarrow>
                   \<bar>of_int (completionRate r)
                      - 100 * of_int (totalCompleted r) / of_int (totalItems r)\<bar>
                     \<le> 1 / 2 + (2::rat) powi (- 45)))"
proof -
  from assms obtain all_rows completed_rows
    where db: "allCards_query db = Some all_rows" "allCompleted_query db = Some completed_rows"
      and ti: "totalItems r = int (length all_rows)"
      and tc: "totalCompleted r = int (length (filter isCompleted completed_rows))"
      and rate: "completionRate r = completion_rate (totalItems r) (totalCompleted r)"
    by (rule report_GET_Json200) simp
  have same: "completionRate r' = completionRate r"
    if "report_GET apiKey authHeader query' now db' = Json200 r'"
      "allCards_query db' = allCards_query db" "allCompleted_query db' = allCompleted_query db"
    for query' db' r'
    using that db ti tc rate by (auto elim!: report_GET_Json200)
  have nonneg: "0 \<le> totalCompleted r" by (simp add: tc)
  have empty: "completionRate r = 0" if "totalItems r = 0"
    using that by (simp add: rate completion_rate_def)
  have pos: "completionRate r
               = Math_round (number_times
                   (number_divide (of_int (totalCompleted r)) (of_int (totalItems r))) 100)"
    if "0 < totalItems r"
    using that by (simp add: rate completion_rate_def)
  have lower: "0 \<le> completionRate r"
  proof (cases "0 < totalItems r")
    case True
    from completion_rate_bounds(1) [OF True nonneg] show ?thesis by (simp add: rate)
  next
    case False
    then have "totalItems r = 0" by (simp add: ti)
    with empty show ?thesis by simp
  qed
  have steady: "totalCompleted r \<le> totalItems r" if "allCards_query db = allCompleted_query db"
  proof -
    from that db have "completed_rows = all_rows" by simp
    then show ?thesis by (simp add: ti tc)
  qed
  have upper: "completionRate r \<le> 100" if le: "totalCompleted r \<le> totalItems r"
  proof (cases "0 < totalItems r")
    case True
    from completion_rate_bounds(2) [OF True nonneg le] show ?thesis by (simp add: rate)
  next
    case False
    then have "totalItems r = 0" by (simp add: ti)
    with empty show ?thesis by simp
  qed
  have near: "\<bar>of_int (completionRate r)
                - 100 * of_int (totalCompleted r) / of_int (totalItems r)\<bar>
               \<le> 1 / 2 + (2::rat) powi (- 45)"
    if le: "totalCompleted r \<le> totalItems r" and p: "0 < totalItems r"
    using completion_rate_bounds(3) [OF p nonneg le] by (simp only: rate)
  from db ti tc same empty pos lower steady upper near show ?thesis by blast
qed

theorem completion_rate_report_witness:
  "\<exists>r. report_GET None None \<lparr>q_periodType = None, q_year = None, q_month = None\<rparr>
          (civil 2024 3 15 10 30 0 0)
          (unchanged
            [\<lparr>category = None, estimatedCost = Some 100, isCompleted = False, createdAt = 0\<rparr>,
             \<lparr>category = None, estimatedCost = Some 50, isCompleted = True, createdAt = 1\<rparr>,
             \<lparr>category = None, estimatedCost = None, isCompleted = False, createdAt = 2\<rparr>])
        = Json200 r
      \<and> 0 \<le> completionRate r \<and> completionRate r \<le> 100"
proof -
  let ?db = "unchanged
            [\<lparr>category = None, estimatedCost = Some 100, isCompleted = False, createdAt = 0\<rparr>,
             \<lparr>category = None, estimatedCost = Some 50, isCompleted = True, createdAt = 1\<rparr>,
             \<lparr>category = None, estimatedCost = None, isCompleted = False, createdAt = 2\<rparr>]"
  let ?resp = "report_GET None None \<lparr>q_periodType = None, q_year = None, q_month = None\<rparr>
          (civil 2024 3 15 10 30 0 0) ?db"
  have "status ?resp = 200" by code_simp
  then obtain r where r: "?resp = Json200 r" by (rule report_GET_status_200)
  have "allCards_query ?db = allCompleted_query ?db" by (simp add: unchanged_def)
  with completion_rate_report [OF r] have "0 \<le> completionRate r \<and> completionRate r \<le> 100"
    by blast
  with r show ?thesis by blast
qed

text \<open>
  C6 as stated fails: with 23 of 40 rows completed the exact percentage is 57.5, which
  rounds to 58, but the double-precision product is just below 57.5 and the reported
  rate is 57.
\<close>

theorem completion_rate_not_exact:
  "(case report_GET None None \<lparr>q_periodType = None, q_year = None, q_month = None\<rparr>
          (civil 2024 3 15 10 30 0 0)
          (unchanged
            (replicate 23 \<lparr>category = None, estimatedCost = None, isCompleted = True,
                            createdAt = 0\<rparr>
             @ replicate 17 \<lparr>category = None, estimatedCost = None, isCompleted = False,
                              createdAt = 0\<rparr>))
    of Json200 r \<Rightarrow> (totalItems r, totalCompleted r, completionRate r)
     | JsonError code message \<Rightarrow> (0, 0, 0)) = (40, 23, 57)
   \<and> round (100 * 23 / 40 :: real) = 58"
proof -
  have "round (100 * 23 / 40 :: real) = 58"
    by (simp add: round_def)
  moreover have "(case report_GET None None \<lparr>q_periodType = None, q_year = None, q_month = None\<rparr>
          (civil 2024 3 15 10 30 0 0)
          (unchanged
            (replicate 23 \<lparr>category = None, estimatedCost = None, isCompleted = True,
                            createdAt = 0\<rparr>
             @ replicate 17 \<lparr>category = None, estimatedCost = None, isCompleted = False,
                              createdAt = 0\<rparr>))
    of Json200 r \<Rightarrow> (totalItems r, totalCompleted r, completionRate r)
     | JsonError code message \<Rightarrow> (0, 0, 0)) = (40, 23, 57)"
    by code_simp
  ultimately show ?thesis by simp
qed

text \<open>
  Nor is the rate at most 100 whatever happens: the two counts are two queries, and a
  row that is inserted completed between them is counted by the second one only. With
  one row at the first count and two completed rows at the second, the rate is 200.
\<close>

lemma completion_rate_above_100:
  "(case report_GET None None \<lparr>q_periodType = None, q_year = None, q_month = None\<rparr>
          (civil 2024 3 15 10 30 0 0)
          \<lparr>periodCards_query = Some [],
           allCards_query =
             Some [\<lparr>category = None, estimatedCost = None, isCompleted = True, createdAt = 0\<rparr>],
           allCompleted_query =
             Some [\<lparr>category = None, estimatedCost = None, isCompleted = True, createdAt = 0\<rparr>,
                   \<lparr>category = None, estimatedCost = None, isCompleted = True, createdAt = 1\<rparr>]\<rparr>
    of Json200 r \<Rightarrow> (totalItems r, totalCompleted r, completionRate r)
     | JsonError code message \<Rightarrow> (0, 0, 0)) = (1, 2, 200)"
  by code_simp

end
